theory Spec2Isabelle
  imports Complex_Main "HOL-Library.Sublist" "HOL-Library.Char_ord" "HOL-Library.List_Lexorder"
    "HOL-Library.Multiset"
begin

section \<open>The Vika API micro-service: cache, rate limiter, tree fetcher, handlers\<close>

text \<open>
  Shallow embedding of \<^verbatim>\<open>backend/python_service/vika_api_server.py\<close>.
  The module keeps its state in the globals \<^verbatim>\<open>config\<close>, \<^verbatim>\<open>cache\<close> and
  \<^verbatim>\<open>rate_limiter\<close>; here every function takes the globals it reads and returns the
  ones it writes. Every call of \<^verbatim>\<open>time.time()\<close> is an argument \<open>now\<close>.
  Timestamps are Python floats; they are modelled as real numbers, so the rounding of
  the float subtraction \<^verbatim>\<open>now - t\<close> is not part of the model.
\<close>

subsection \<open>Cache store\<close>

text \<open>
  \<^verbatim>\<open>cache: Dict[str, Dict[str, Any]]\<close>, each entry a dict with the keys
  \<^verbatim>\<open>'data'\<close> and \<^verbatim>\<open>'timestamp'\<close>.
\<close>

record 'v cache_entry =
  data :: 'v
  timestamp :: real

type_synonym 'v cache = "string \<rightharpoonup> 'v cache_entry"

text \<open>Python's \<^verbatim>\<open>pattern in key\<close> on strings: \<open>pattern\<close> occurs in \<open>key\<close> as a
  contiguous substring.\<close>

definition str_in :: "string \<Rightarrow> string \<Rightarrow> bool" where
  "str_in pattern key = sublist pattern key"

text \<open>
  \<^verbatim>\<open>get_from_cache(key, max_age)\<close>: the returned pair is the Python return value
  (\<open>None\<close> for Python's \<^verbatim>\<open>None\<close>, \<open>Some d\<close> for \<^verbatim>\<open>entry['data']\<close>) and the cache
  after the call. (A stored Python \<^verbatim>\<open>None\<close> would be read by a caller as a miss; the
  handlers store lists and dicts.)
\<close>

definition get_from_cache :: "'v cache \<Rightarrow> real \<Rightarrow> string \<Rightarrow> int \<Rightarrow> 'v option \<times> 'v cache" where
  "get_from_cache cache now key max_age =
     (case cache key of
        Some entry \<Rightarrow>
          if now - timestamp entry < of_int max_age then (Some (data entry), cache)
          else (None, cache(key := None))
      | None \<Rightarrow> (None, cache))"

definition set_cache :: "'v cache \<Rightarrow> real \<Rightarrow> string \<Rightarrow> 'v \<Rightarrow> 'v cache" where
  "set_cache cache now key d = cache(key \<mapsto> \<lparr>data = d, timestamp = now\<rparr>)"

text \<open>
  \<^verbatim>\<open>clear_cache_pattern(pattern)\<close>: collect the keys that contain the pattern, then
  delete each of them. (The number of deleted keys is only logged.)
\<close>

definition clear_cache_pattern :: "'v cache \<Rightarrow> string \<Rightarrow> 'v cache" where
  "clear_cache_pattern cache pattern =
     (let keys_to_delete = {key \<in> dom cache. str_in pattern key}
      in cache |` (- keys_to_delete))"

text \<open>\<^verbatim>\<open>cache.clear()\<close>\<close>

definition cache_clear :: "'v cache \<Rightarrow> 'v cache" where
  "cache_clear cache = Map.empty"

subsection \<open>Configuration and errors\<close>

text \<open>
  \<^verbatim>\<open>config: Dict[str, Any]\<close> is empty until \<^verbatim>\<open>POST /config\<close> stores the fields of a
  \<^verbatim>\<open>VikaConfig\<close> in it (\<^verbatim>\<open>config.update(vika_config.dict())\<close>); so it is either
  empty or holds all three fields.
\<close>

record VikaConfig =
  user_token :: string
  api_base :: string
  rate_limit_qps :: int

type_synonym config = "VikaConfig option"

text \<open>\<^verbatim>\<open>config.get('rate_limit_qps', 2)\<close>\<close>

definition config_get_rate_limit_qps :: "config \<Rightarrow> int" where
  "config_get_rate_limit_qps config =
     (case config of None \<Rightarrow> 2 | Some c \<Rightarrow> rate_limit_qps c)"

text \<open>
  Python exceptions that the modelled code can meet: an error raised by the upstream
  client (with its message), \<^verbatim>\<open>len(None)\<close>, a division by zero, an integer too large
  to convert to a float, a missing dict key.
\<close>

datatype exn =
  UpstreamError string | TypeError | ZeroDivisionError | OverflowError | KeyError string

text \<open>
  \<^verbatim>\<open>HTTPException(status_code, detail)\<close>. The detail messages of the source are
  format strings with a fixed (Chinese) text and one interpolated value; the model keeps
  which message it is and the interpolated value: \<open>QpsExceeded q\<close> is the message of
  \<^verbatim>\<open>rate_limit_check\<close> with \<^verbatim>\<open>{qps_limit}\<close> = \<open>q\<close>, \<open>HandlerFailed h e\<close> is the message of
  the handler \<open>h\<close> with \<^verbatim>\<open>{str(e)}\<close> for the exception \<open>e\<close>.
\<close>

datatype detail = QpsExceeded int | HandlerFailed string exn

datatype http_exception = HTTPException (status_code: nat) (detail: detail)

subsection \<open>Rate limiter\<close>

text \<open>\<^verbatim>\<open>rate_limiter: Dict[str, List[float]]\<close>\<close>

type_synonym rate_limiter = "string \<rightharpoonup> real list"

text \<open>
  \<^verbatim>\<open>rate_limit_check(operation)\<close>: returns normally (\<open>Inr ()\<close>) or raises the
  \<^verbatim>\<open>HTTPException\<close> 429 (\<open>Inl\<close>); the second component is \<^verbatim>\<open>rate_limiter\<close> after
  the call. The window is created and pruned before the quota is compared. (After the
  first step the operation has a window, so the lookup \<^verbatim>\<open>rate_limiter[operation]\<close>
  cannot raise.)
\<close>

definition rate_limit_check ::
  "config \<Rightarrow> rate_limiter \<Rightarrow> real \<Rightarrow> string \<Rightarrow> (http_exception + unit) \<times> rate_limiter" where
  "rate_limit_check config rate_limiter current_time operation =
     (let qps_limit = config_get_rate_limit_qps config;
          rl1 = (if operation \<notin> dom rate_limiter then rate_limiter(operation \<mapsto> [])
                 else rate_limiter);
          rl2 = rl1(operation \<mapsto> filter (\<lambda>t. current_time - t < 1) (the (rl1 operation)))
      in if int (length (the (rl2 operation))) \<ge> qps_limit
         then (Inl (HTTPException 429 (QpsExceeded qps_limit)), rl2)
         else (Inr (), rl2(operation \<mapsto> the (rl2 operation) @ [current_time])))"

subsection \<open>Cache keys\<close>

text \<open>
  The values that the handlers pass to \<^verbatim>\<open>get_cache_key\<close> as keyword arguments:
  strings, integers (\<^verbatim>\<open>page_size\<close>) and \<^verbatim>\<open>None\<close> (an optional parameter left out).
\<close>

datatype pyval = PNone | PStr string | PInt int

text \<open>\<^verbatim>\<open>str(n)\<close> for an integer: its decimal digits, with a minus sign when negative.\<close>

definition digit_char :: "nat \<Rightarrow> char" where
  "digit_char d = char_of (48 + d)"

fun str_nat :: "nat \<Rightarrow> string" where
  "str_nat n = (if n < 10 then [digit_char n] else str_nat (n div 10) @ [digit_char (n mod 10)])"

declare str_nat.simps [simp del]

definition str_int :: "int \<Rightarrow> string" where
  "str_int i = (if i < 0 then CHR ''-'' # str_nat (nat (- i)) else str_nat (nat i))"

text \<open>What the format string \<^verbatim>\<open>f"{v}"\<close> writes for a value.\<close>

fun py_str :: "pyval \<Rightarrow> string" where
  "py_str PNone = ''None''"
| "py_str (PStr s) = s"
| "py_str (PInt i) = str_int i"

text \<open>\<^verbatim>\<open>sep.join(parts)\<close>\<close>

fun str_join :: "string \<Rightarrow> string list \<Rightarrow> string" where
  "str_join sep [] = []"
| "str_join sep [x] = x"
| "str_join sep (x # y # ys) = x @ sep @ str_join sep (y # ys)"

text \<open>
  \<^verbatim>\<open>get_cache_key(operation, **kwargs)\<close>. The keyword arguments are the dict
  \<^verbatim>\<open>kwargs\<close>, modelled as the list of its items in the order in which the caller wrote
  them; Python rejects a repeated keyword, so the names are distinct, and
  \<^verbatim>\<open>sorted(kwargs.items())\<close>, which compares the (name, value) tuples, is decided by the
  names alone. Strings are compared character by character, a proper prefix first.
\<close>

definition get_cache_key :: "string \<Rightarrow> (string \<times> pyval) list \<Rightarrow> string" where
  "get_cache_key operation kwargs =
     str_join '':''
       (operation # map (\<lambda>(k, v). k @ ''='' @ py_str v) (sort_key fst kwargs))"

subsection \<open>Record handlers\<close>

text \<open>
  A handler's result is the JSON body it returns (\<open>Inr\<close>) or the \<^verbatim>\<open>HTTPException\<close> it
  raises (\<open>Inl\<close>), together with the cache after the call. The body is
  \<^verbatim>\<open>{"success": ..., "data": ..., "from_cache": ...}\<close>, the last key only on the read
  paths. The call into the upstream client is an argument: its outcome, \<open>Inr\<close> the
  (serialised) result or \<open>Inl\<close> the message of the exception it raised. The admission
  check \<open>rate_limit_check\<close> is a dependency that runs before the handler's body.
\<close>

datatype 'd response = Response (success: bool) (payload: 'd) (from_cache: "bool option")

definition opt_str :: "string option \<Rightarrow> pyval" where
  "opt_str x = (case x of None \<Rightarrow> PNone | Some s \<Rightarrow> PStr s)"

definition opt_int :: "int option \<Rightarrow> pyval" where
  "opt_int x = (case x of None \<Rightarrow> PNone | Some i \<Rightarrow> PInt i)"

text \<open>\<^verbatim>\<open>POST /records\<close>: \<open>acreate\<close> is the outcome of
  \<^verbatim>\<open>datasheet.records.acreate(records=records_data)\<close>.\<close>

definition create_records ::
  "'v cache \<Rightarrow> string \<Rightarrow> string + 'r \<Rightarrow> (http_exception + 'r response) \<times> 'v cache" where
  "create_records cache datasheet_id acreate =
     (case acreate of
        Inl msg \<Rightarrow>
          (Inl (HTTPException 500 (HandlerFailed ''create_records'' (UpstreamError msg))), cache)
      | Inr result \<Rightarrow>
          (Inr (Response True result None),
           clear_cache_pattern cache (''records:'' @ datasheet_id)))"

text \<open>
  \<^verbatim>\<open>GET /records/{datasheet_id}\<close>: \<open>aall\<close> is the outcome of the upstream query,
  \<open>now_read\<close> and \<open>now_write\<close> are the clock at the cache read and at the cache write.
  The web framework fills in the defaults of the query parameters (\<^verbatim>\<open>page_size\<close> is
  100 when the request has none).
\<close>

definition get_records ::
  "'v cache \<Rightarrow> real \<Rightarrow> real \<Rightarrow> string \<Rightarrow> string option \<Rightarrow> int option \<Rightarrow> string option
     \<Rightarrow> string option \<Rightarrow> string + 'v \<Rightarrow> (http_exception + 'v response) \<times> 'v cache" where
  "get_records cache now_read now_write datasheet_id view_id page_size page_token
       filter_formula aall =
     (let cache_key = get_cache_key ''records''
            [(''datasheet_id'', PStr datasheet_id), (''view_id'', opt_str view_id),
             (''page_size'', opt_int page_size), (''page_token'', opt_str page_token),
             (''filter_formula'', opt_str filter_formula)];
          (cached_result, cache1) = get_from_cache cache now_read cache_key 300
      in case cached_result of
           Some d \<Rightarrow> (Inr (Response True d (Some True)), cache1)
         | None \<Rightarrow>
             (case aall of
                Inl msg \<Rightarrow>
                  (Inl (HTTPException 500 (HandlerFailed ''get_records'' (UpstreamError msg))),
                   cache1)
              | Inr result \<Rightarrow>
                  (Inr (Response True result (Some False)),
                   set_cache cache1 now_write cache_key result)))"

subsection \<open>Tree fetcher\<close>

text \<open>
  The node objects of the upstream client, with the four attributes that the fetcher reads,
  and the detail record of a folder, of which it reads \<^verbatim>\<open>children\<close>: \<open>None\<close> when
  the attribute is \<^verbatim>\<open>None\<close> (or missing), in which case \<^verbatim>\<open>len(folder_details.children)\<close>
  raises. The output dicts have the keys \<^verbatim>\<open>id\<close>, \<^verbatim>\<open>name\<close>, \<^verbatim>\<open>type\<close>, \<^verbatim>\<open>icon\<close>
  and \<^verbatim>\<open>children\<close>. The awaits of the fetcher are recorded as events, in order:
  \<^verbatim>\<open>asyncio.sleep(delay)\<close> and \<^verbatim>\<open>space.nodes.aget(node.id)\<close>.
\<close>

record node =
  node_id :: string
  node_name :: string
  node_type :: string
  node_icon :: string

record folder_details =
  children :: "node list option"

datatype tree_node =
  TreeNode (tn_id: string) (tn_name: string) (tn_type: string) (tn_icon: string)
    (tn_children: "tree_node list")

datatype event = Sleep real | Aget string

text \<open>
  Python's \<^verbatim>\<open>a / b\<close> for a float \<open>a\<close> and an integer \<open>b\<close>. The integer is first
  converted to a float, which raises \<^verbatim>\<open>OverflowError\<close> when it does not round into the
  range of a double: the largest double is \<open>2^1024 - 2^971\<close>, and an integer of magnitude
  \<open>2^1024 - 2^970\<close> or more rounds beyond it. Then a zero divisor raises
  \<^verbatim>\<open>ZeroDivisionError\<close>. (The quotient is the real one; its rounding is not modelled.)
\<close>

definition float_overflow_bound :: int where
  "float_overflow_bound = 2 ^ 1024 - 2 ^ 970"

definition int_to_float :: "int \<Rightarrow> exn + real" where
  "int_to_float b =
     (if float_overflow_bound \<le> \<bar>b\<bar> then Inl OverflowError else Inr (of_int b))"

definition py_truediv :: "real \<Rightarrow> int \<Rightarrow> exn + real" where
  "py_truediv a b =
     (case int_to_float b of
        Inl e \<Rightarrow> Inl e
      | Inr x \<Rightarrow> if x = 0 then Inl ZeroDivisionError else Inr (a / x))"

text \<open>
  \<^verbatim>\<open>_fetch_children_recursively(space, nodes)\<close>. \<open>aget\<close> is the upstream
  \<^verbatim>\<open>space.nodes.aget\<close>: for a node id, the folder's detail record or the message of
  the exception it raises. The loop over \<^verbatim>\<open>nodes\<close> is the recursion on the list; the
  recursive call on a folder's children takes one unit of \<open>fuel\<close> (the depth still
  allowed), and the result is \<open>None\<close> when the fuel runs out, so a hierarchy that never
  ends has no result. A result is the returned list or the raised exception, and the
  events up to there.
\<close>

type_synonym fetch_result = "(exn + tree_node list) \<times> event list"

fun fetch_children_recursively ::
  "nat \<Rightarrow> config \<Rightarrow> (string \<Rightarrow> string + folder_details) \<Rightarrow> node list \<Rightarrow> fetch_result option" where
  "fetch_children_recursively fuel config aget [] = Some (Inr [], [])"
| "fetch_children_recursively fuel config aget (node # nodes) =
     (case
        (if node_type node = ''Folder'' then
           (case (let qps_limit = config_get_rate_limit_qps config
                  in if qps_limit > 0
                     then (case py_truediv 1 qps_limit of
                             Inl e \<Rightarrow> Inl e | Inr delay \<Rightarrow> Inr [Sleep delay])
                     else Inr []) of
              Inl e \<Rightarrow> Some (Inl e, [])
            | Inr slept \<Rightarrow>
                (case aget (node_id node) of
                   Inl msg \<Rightarrow> Some (Inl (UpstreamError msg), slept @ [Aget (node_id node)])
                 | Inr folder_details \<Rightarrow>
                     (case children folder_details of
                        None \<Rightarrow> Some (Inl TypeError, slept @ [Aget (node_id node)])
                      | Some cs \<Rightarrow>
                          if cs \<noteq> [] then
                            (case fuel of
                               0 \<Rightarrow> None
                             | Suc k \<Rightarrow>
                                 (case fetch_children_recursively k config aget cs of
                                    None \<Rightarrow> None
                                  | Some (r, evs) \<Rightarrow>
                                      Some (r, slept @ Aget (node_id node) # evs)))
                          else Some (Inr [], slept @ [Aget (node_id node)]))))
         else Some (Inr [], []))
      of
        None \<Rightarrow> None
      | Some (Inl e, evs) \<Rightarrow> Some (Inl e, evs)
      | Some (Inr children_dicts, evs) \<Rightarrow>
          (case fetch_children_recursively fuel config aget nodes of
             None \<Rightarrow> None
           | Some (Inl e, evs') \<Rightarrow> Some (Inl e, evs @ evs')
           | Some (Inr result_list, evs') \<Rightarrow>
               Some (Inr (TreeNode (node_id node) (node_name node) (node_type node)
                            (node_icon node) children_dicts # result_list),
                     evs @ evs')))"

text \<open>The events of the throttle of one folder: one sleep of \<open>1 / quota\<close> seconds when
  the quota is positive, nothing otherwise.\<close>

definition throttle :: "config \<Rightarrow> event list" where
  "throttle config =
     (if config_get_rate_limit_qps config > 0
      then [Sleep (1 / of_int (config_get_rate_limit_qps config))] else [])"

text \<open>
  The hierarchies on which the traversal ends without an error: below the given nodes,
  the detail fetch of every folder succeeds, with a children list, and the nesting is
  finite.
\<close>

inductive fetchable :: "(string \<Rightarrow> string + folder_details) \<Rightarrow> node list \<Rightarrow> bool"
  for aget :: "string \<Rightarrow> string + folder_details" where
  fetchable_Nil: "fetchable aget []"
| fetchable_leaf: "node_type n \<noteq> ''Folder'' \<Longrightarrow> fetchable aget ns \<Longrightarrow> fetchable aget (n # ns)"
| fetchable_folder:
    "node_type n = ''Folder'' \<Longrightarrow> aget (node_id n) = Inr det \<Longrightarrow> children det = Some cs \<Longrightarrow>
     fetchable aget cs \<Longrightarrow> fetchable aget ns \<Longrightarrow> fetchable aget (n # ns)"

text \<open>
  The hierarchies on which the traversal meets a folder whose detail fetch raises (with
  the message \<open>msg\<close>): the folder is the first node, or lies below the first node, or comes
  after a first node that is traversed without an error.
\<close>

inductive fetch_fails :: "(string \<Rightarrow> string + folder_details) \<Rightarrow> node list \<Rightarrow> string \<Rightarrow> bool"
  for aget :: "string \<Rightarrow> string + folder_details" where
  fails_here:
    "node_type n = ''Folder'' \<Longrightarrow> aget (node_id n) = Inl msg \<Longrightarrow> fetch_fails aget (n # ns) msg"
| fails_below:
    "node_type n = ''Folder'' \<Longrightarrow> aget (node_id n) = Inr det \<Longrightarrow> children det = Some cs \<Longrightarrow>
     fetch_fails aget cs msg \<Longrightarrow> fetch_fails aget (n # ns) msg"
| fails_after_leaf:
    "node_type n \<noteq> ''Folder'' \<Longrightarrow> fetch_fails aget ns msg \<Longrightarrow> fetch_fails aget (n # ns) msg"
| fails_after_folder:
    "node_type n = ''Folder'' \<Longrightarrow> aget (node_id n) = Inr det \<Longrightarrow> children det = Some cs \<Longrightarrow>
     fetchable aget cs \<Longrightarrow> fetch_fails aget ns msg \<Longrightarrow> fetch_fails aget (n # ns) msg"

text \<open>
  \<^verbatim>\<open>GET /spaces/{space_id}/datasheets\<close>: \<open>aall\<close> is the outcome of
  \<^verbatim>\<open>space.nodes.aall()\<close>, the top-level nodes. Only a tree that was fetched whole is
  stored in the cache and returned; any exception becomes the \<^verbatim>\<open>HTTPException\<close> 500.
\<close>

definition get_datasheets ::
  "nat \<Rightarrow> config \<Rightarrow> tree_node list cache \<Rightarrow> real \<Rightarrow> real \<Rightarrow> string \<Rightarrow> string + node list
     \<Rightarrow> (string \<Rightarrow> string + folder_details)
     \<Rightarrow> ((http_exception + tree_node list response) \<times> tree_node list cache) option" where
  "get_datasheets fuel config cache now_read now_write space_id aall aget =
     (let cache_key = get_cache_key ''full_nodes_tree'' [(''space_id'', PStr space_id)];
          (cached_result, cache1) = get_from_cache cache now_read cache_key 3600
      in case cached_result of
           Some d \<Rightarrow> Some (Inr (Response True d (Some True)), cache1)
         | None \<Rightarrow>
             (case aall of
                Inl msg \<Rightarrow>
                  Some (Inl (HTTPException 500
                          (HandlerFailed ''get_datasheets'' (UpstreamError msg))), cache1)
              | Inr top_level_nodes \<Rightarrow>
                  (case fetch_children_recursively fuel config aget top_level_nodes of
                     None \<Rightarrow> None
                   | Some (Inl e, evs) \<Rightarrow>
                       Some (Inl (HTTPException 500 (HandlerFailed ''get_datasheets'' e)),
                             cache1)
                   | Some (Inr result_data, evs) \<Rightarrow>
                       Some (Inr (Response True result_data (Some False)),
                             set_cache cache1 now_write cache_key result_data))))"

abbreviation node_dict :: "node \<Rightarrow> tree_node list \<Rightarrow> tree_node" where
  "node_dict n ch \<equiv> TreeNode (node_id n) (node_name n) (node_type n) (node_icon n) ch"

subsection \<open>Batch handler\<close>

text \<open>
  \<^verbatim>\<open>POST /batch\<close>. An operation is a dict with the keys \<^verbatim>\<open>type\<close> and \<^verbatim>\<open>data\<close>;
  \<^verbatim>\<open>data\<close> is a dict of which the handler reads \<^verbatim>\<open>datasheet_id\<close> and \<^verbatim>\<open>records\<close>
  or \<^verbatim>\<open>record_ids\<close>. A field is \<open>None\<close> when the key is missing (a missing
  \<^verbatim>\<open>data\<close> is the empty dict). The upstream client is a function of its own state
  \<open>u\<close> and of the call, to the outcome of the call (\<open>Inl\<close> the message of the exception it
  raises) and its next state. An item of the result is
  \<^verbatim>\<open>{'success': True, 'data': ...}\<close> or \<^verbatim>\<open>{'success': False, 'error': ...}\<close>, the error
  being the text of the exception caught or the message for an unknown type.
\<close>

datatype 'p upstream_call = ACreate string 'p | AUpdate string 'p | ADelete string 'p

record 'p operation =
  op_type :: "string option"
  op_datasheet_id :: "string option"
  op_records :: "'p option"
  op_record_ids :: "'p option"

datatype batch_error = Raised exn | Unsupported "string option"

datatype 'r batch_result = BatchSuccess 'r | BatchFailure batch_error

fun item_success :: "'r batch_result \<Rightarrow> bool" where
  "item_success (BatchSuccess d) = True"
| "item_success (BatchFailure e) = False"

text \<open>What the \<^verbatim>\<open>try\<close> block appends after an upstream call.\<close>

definition upstream_result :: "(string + 'r) \<times> 'u \<Rightarrow> 'r batch_result \<times> 'u" where
  "upstream_result x =
     (case x of (Inl msg, u') \<Rightarrow> (BatchFailure (Raised (UpstreamError msg)), u')
              | (Inr result, u') \<Rightarrow> (BatchSuccess result, u'))"

text \<open>One iteration of the loop: the body of the \<^verbatim>\<open>for\<close> with its \<^verbatim>\<open>try/except\<close>;
  the item appended to \<^verbatim>\<open>results\<close> and the upstream state afterwards.\<close>

definition run_operation ::
  "('u \<Rightarrow> 'p upstream_call \<Rightarrow> (string + 'r) \<times> 'u) \<Rightarrow> 'u \<Rightarrow> 'p operation
     \<Rightarrow> 'r batch_result \<times> 'u" where
  "run_operation upstream u operation =
     (if op_type operation = Some ''create_record'' then
        (case op_datasheet_id operation of
           None \<Rightarrow> (BatchFailure (Raised (KeyError ''datasheet_id'')), u)
         | Some d \<Rightarrow>
             (case op_records operation of
                None \<Rightarrow> (BatchFailure (Raised (KeyError ''records'')), u)
              | Some recs \<Rightarrow> upstream_result (upstream u (ACreate d recs))))
      else if op_type operation = Some ''update_record'' then
        (case op_datasheet_id operation of
           None \<Rightarrow> (BatchFailure (Raised (KeyError ''datasheet_id'')), u)
         | Some d \<Rightarrow>
             (case op_records operation of
                None \<Rightarrow> (BatchFailure (Raised (KeyError ''records'')), u)
              | Some recs \<Rightarrow> upstream_result (upstream u (AUpdate d recs))))
      else if op_type operation = Some ''delete_record'' then
        (case op_datasheet_id operation of
           None \<Rightarrow> (BatchFailure (Raised (KeyError ''datasheet_id'')), u)
         | Some d \<Rightarrow>
             (case op_record_ids operation of
                None \<Rightarrow> (BatchFailure (Raised (KeyError ''record_ids'')), u)
              | Some ids \<Rightarrow> upstream_result (upstream u (ADelete d ids))))
      else (BatchFailure (Unsupported (op_type operation)), u))"

fun batch_loop ::
  "('u \<Rightarrow> 'p upstream_call \<Rightarrow> (string + 'r) \<times> 'u) \<Rightarrow> 'u \<Rightarrow> 'r batch_result list
     \<Rightarrow> 'p operation list \<Rightarrow> 'r batch_result list \<times> 'u" where
  "batch_loop upstream u results [] = (results, u)"
| "batch_loop upstream u results (operation # operations) =
     (case run_operation upstream u operation of
        (res, u') \<Rightarrow> batch_loop upstream u' (results @ [res]) operations)"

text \<open>The handler: the loop, then \<^verbatim>\<open>cache.clear()\<close>. Nothing outside the inner
  \<^verbatim>\<open>try\<close> raises, so the outer \<^verbatim>\<open>except\<close> is never entered.\<close>

definition batch_operations ::
  "'v cache \<Rightarrow> ('u \<Rightarrow> 'p upstream_call \<Rightarrow> (string + 'r) \<times> 'u) \<Rightarrow> 'u \<Rightarrow> 'p operation list
     \<Rightarrow> ((http_exception + 'r batch_result list response) \<times> 'v cache) \<times> 'u" where
  "batch_operations cache upstream u operations =
     (case batch_loop upstream u [] operations of
        (results, u') \<Rightarrow> ((Inr (Response True results None), cache_clear cache), u'))"

section \<open>Properties\<close>

subsection \<open>Cache store\<close>

lemma clear_cache_pattern_apply:
  "clear_cache_pattern cache p k = (if str_in p k then None else cache k)"
  by (auto simp: clear_cache_pattern_def Let_def restrict_map_def dom_def)

text \<open>
  Claim C4. For a positive \<open>max_age\<close>: a read of a stored entry returns its value exactly
  when \<open>now - stored_at < max_age\<close>; a read of an expired entry deletes it and returns
  absent, and every later read of that key (any time, any \<open>max_age\<close>) is absent too and
  changes nothing; \<open>set_cache\<close> overwrites the entry of the key with the value and the
  current time, whatever was there, and a read that follows it before \<open>max_age\<close> has
  elapsed (in particular at the same instant) returns the value.
\<close>

theorem get_from_cache_contract:
  "0 < max_age \<longrightarrow>
     (cache k = Some e \<longrightarrow>
        (fst (get_from_cache cache now k max_age) = Some (data e))
          = (now - timestamp e < of_int max_age))
   \<and> (cache k = Some e \<and> \<not> now - timestamp e < of_int max_age \<longrightarrow>
        get_from_cache cache now k max_age = (None, cache(k := None))
      \<and> (\<forall>now' max_age'.
            get_from_cache (snd (get_from_cache cache now k max_age)) now' k max_age'
              = (None, snd (get_from_cache cache now k max_age))))
   \<and> set_cache cache now k v = cache(k \<mapsto> \<lparr>data = v, timestamp = now\<rparr>)
   \<and> get_from_cache (set_cache cache now k v) now k max_age
        = (Some v, set_cache cache now k v)
   \<and> (\<forall>now'. now' - now < of_int max_age \<longrightarrow>
        get_from_cache (set_cache cache now k v) now' k max_age
          = (Some v, set_cache cache now k v))"
  by (simp add: get_from_cache_def set_cache_def)

theorem get_from_cache_contract_witness:
  "(0::int) < 300
   \<and> [''k'' \<mapsto> \<lparr>data = (7::nat), timestamp = 0\<rparr>] ''k'' = Some \<lparr>data = 7, timestamp = 0\<rparr>
   \<and> \<not> (400::real) - 0 < of_int 300
   \<and> get_from_cache [''k'' \<mapsto> \<lparr>data = (7::nat), timestamp = 0\<rparr>] 400 ''k'' 300
       = (None, Map.empty)
   \<and> get_from_cache (snd (get_from_cache [''k'' \<mapsto> \<lparr>data = (7::nat), timestamp = 0\<rparr>] 400 ''k'' 300))
         401 ''k'' 3600 = (None, Map.empty)
   \<and> get_from_cache (set_cache [''k'' \<mapsto> \<lparr>data = (7::nat), timestamp = 0\<rparr>] 400 ''k'' 8) 400 ''k'' 300
       = (Some 8, [''k'' \<mapsto> \<lparr>data = 8, timestamp = 400\<rparr>])"
  using get_from_cache_contract
    [of 300 "[''k'' \<mapsto> \<lparr>data = (7::nat), timestamp = 0\<rparr>]" "''k''"
        "\<lparr>data = 7, timestamp = 0\<rparr>" 400 8]
  by (simp add: get_from_cache_def set_cache_def)

text \<open>
  Claim C8. \<open>clear_cache_pattern\<close> deletes exactly the entries whose key contains the
  pattern as a substring and leaves every other entry as it was (value and timestamp);
  so after \<open>set_cache\<close> on the key \<open>records:X:page1\<close>, clearing the pattern
  \<open>records:X\<close> removes that entry and a following read of the key is absent.
\<close>

theorem clear_cache_pattern_exact:
  "(\<forall>k. clear_cache_pattern cache p k = (if sublist p k then None else cache k))
   \<and> dom (clear_cache_pattern cache p) = {k \<in> dom cache. \<not> sublist p k}
   \<and> clear_cache_pattern (set_cache cache now ''records:X:page1'' v) ''records:X''
        ''records:X:page1'' = None
   \<and> fst (get_from_cache
            (clear_cache_pattern (set_cache cache now ''records:X:page1'' v) ''records:X'')
            now' ''records:X:page1'' max_age) = None"
proof -
  have a: "\<And>c k. clear_cache_pattern c p k = (if sublist p k then None else c k)"
    by (simp add: clear_cache_pattern_apply str_in_def)
  have s: "str_in ''records:X'' ''records:X:page1''"
    by (simp add: str_in_def sublist_code)
  have b: "dom (clear_cache_pattern cache p) = {k \<in> dom cache. \<not> sublist p k}"
    by (auto simp: a dom_def)
  have c: "clear_cache_pattern (set_cache cache now ''records:X:page1'' v) ''records:X''
        ''records:X:page1'' = None"
    by (simp only: clear_cache_pattern_apply s if_True)
  have d: "fst (get_from_cache
            (clear_cache_pattern (set_cache cache now ''records:X:page1'' v) ''records:X'')
            now' ''records:X:page1'' max_age) = None"
    by (simp add: get_from_cache_def c)
  from a b c d show ?thesis by blast
qed

theorem clear_cache_pattern_exact_witness:
  "clear_cache_pattern
      [''records:X:page1'' \<mapsto> \<lparr>data = (1::nat), timestamp = 0\<rparr>,
       ''space:space_id=S'' \<mapsto> \<lparr>data = 2, timestamp = 5\<rparr>] ''records:X''
    = [''space:space_id=S'' \<mapsto> \<lparr>data = 2, timestamp = 5\<rparr>]"
proof (rule ext)
  fix k :: string
  let ?c = "[''records:X:page1'' \<mapsto> \<lparr>data = (1::nat), timestamp = 0\<rparr>,
       ''space:space_id=S'' \<mapsto> \<lparr>data = 2, timestamp = 5\<rparr>]"
  have s1: "sublist ''records:X'' ''records:X:page1''" by (simp add: sublist_code)
  have s2: "\<not> sublist ''records:X'' ''space:space_id=S''" by (simp add: sublist_code)
  from clear_cache_pattern_exact [of ?c "''records:X''"]
  have "clear_cache_pattern ?c ''records:X'' k = (if sublist ''records:X'' k then None else ?c k)"
    by blast
  with s1 s2 show "clear_cache_pattern ?c ''records:X'' k
      = [''space:space_id=S'' \<mapsto> \<lparr>data = 2, timestamp = 5\<rparr>] k"
    by (cases "k = ''records:X:page1''"; cases "k = ''space:space_id=S''") auto
qed

subsection \<open>Rate limiter\<close>

lemma rate_limit_check_eq:
  "rate_limit_check config rl now op =
     (let w = filter (\<lambda>t. now - t < 1) (case rl op of None \<Rightarrow> [] | Some ts \<Rightarrow> ts)
      in if config_get_rate_limit_qps config \<le> int (length w)
         then (Inl (HTTPException 429 (QpsExceeded (config_get_rate_limit_qps config))),
               rl(op \<mapsto> w))
         else (Inr (), rl(op \<mapsto> w @ [now])))"
  by (cases "rl op") (auto simp: rate_limit_check_def Let_def dom_def)

text \<open>
  Claim C2, as stated (a denied call leaves the rate-limiter state unchanged, for every
  state), fails: the window is pruned, and created when missing, before the quota is
  compared. With quota 2 and three timestamps of which the oldest is more than a second
  old (the quota was 3 when they were admitted), the call is denied and the oldest
  timestamp is gone; with quota 0 the first call for an operation is denied and leaves
  an empty window for it.
\<close>

theorem rate_limit_check_denied_mutates:
  "fst (rate_limit_check (Some \<lparr>user_token = ''t'', api_base = ''b'', rate_limit_qps = 2\<rparr>)
          [''default'' \<mapsto> [0, 1/10, 2/10]] (105/100) ''default'')
     = Inl (HTTPException 429 (QpsExceeded 2))
   \<and> snd (rate_limit_check (Some \<lparr>user_token = ''t'', api_base = ''b'', rate_limit_qps = 2\<rparr>)
          [''default'' \<mapsto> [0, 1/10, 2/10]] (105/100) ''default'')
     = [''default'' \<mapsto> [1/10, 2/10]]
   \<and> snd (rate_limit_check (Some \<lparr>user_token = ''t'', api_base = ''b'', rate_limit_qps = 2\<rparr>)
          [''default'' \<mapsto> [0, 1/10, 2/10]] (105/100) ''default'')
     \<noteq> [''default'' \<mapsto> [0, 1/10, 2/10]]
   \<and> fst (rate_limit_check (Some \<lparr>user_token = ''t'', api_base = ''b'', rate_limit_qps = 0\<rparr>)
          Map.empty 0 ''default'')
     = Inl (HTTPException 429 (QpsExceeded 0))
   \<and> snd (rate_limit_check (Some \<lparr>user_token = ''t'', api_base = ''b'', rate_limit_qps = 0\<rparr>)
          Map.empty 0 ''default'') ''default''
     \<noteq> (Map.empty :: rate_limiter) ''default''"
  by (auto simp: rate_limit_check_eq config_get_rate_limit_qps_def dest: map_upd_eqD1)

text \<open>
  Claim C2, amended. A denied call appends no timestamp: the windows of the other
  operations are unchanged and the window of the operation becomes its pruned window
  (the timestamps \<open>t\<close> with \<open>now - t < 1.0\<close>, empty if the operation had none); so the state
  is unchanged whenever the operation already has a window whose timestamps are all
  within the last second. The exception is the 429 with the configured quota.
\<close>

theorem rate_limit_check_denied_state:
  "fst (rate_limit_check config rl now op) = Inl e \<longrightarrow>
     e = HTTPException 429 (QpsExceeded (config_get_rate_limit_qps config))
   \<and> snd (rate_limit_check config rl now op)
       = rl(op \<mapsto> filter (\<lambda>t. now - t < 1) (case rl op of None \<Rightarrow> [] | Some ts \<Rightarrow> ts))
   \<and> (\<forall>ts. rl op = Some ts \<and> (\<forall>t\<in>set ts. now - t < 1) \<longrightarrow>
         snd (rate_limit_check config rl now op) = rl)"
proof -
  have "\<And>ts. rl op = Some ts \<Longrightarrow> \<forall>t\<in>set ts. now - t < 1 \<Longrightarrow> rl(op \<mapsto> filter (\<lambda>t. now - t < 1) ts) = rl"
    by (auto simp: fun_upd_idem_iff)
  then show ?thesis
    by (auto simp: rate_limit_check_eq Let_def split: if_splits)
qed

theorem rate_limit_check_denied_state_witness:
  "fst (rate_limit_check None [''default'' \<mapsto> [0, 1/2]] (9/10) ''default'')
     = Inl (HTTPException 429 (QpsExceeded 2))
   \<and> [''default'' \<mapsto> [0, 1/2 :: real]] ''default'' = Some [0, 1/2]
   \<and> (9/10 :: real) - 0 < 1 \<and> (9/10 :: real) - 1/2 < 1
   \<and> snd (rate_limit_check None [''default'' \<mapsto> [0, 1/2]] (9/10) ''default'')
     = [''default'' \<mapsto> [0, 1/2]]"
proof -
  have d: "fst (rate_limit_check None [''default'' \<mapsto> [0, 1/2]] (9/10) ''default'')
     = Inl (HTTPException 429 (QpsExceeded 2))"
    by (simp add: rate_limit_check_eq config_get_rate_limit_qps_def)
  have h: "[''default'' \<mapsto> [0, 1/2 :: real]] ''default'' = Some [0, 1/2]
      \<and> (\<forall>t\<in>set [0, 1/2 :: real]. 9/10 - t < 1)"
    by simp
  have h': "(9/10 :: real) - 0 < 1 \<and> (9/10 :: real) - 1/2 < 1"
    by simp
  from rate_limit_check_denied_state
         [of None "[''default'' \<mapsto> [0, 1/2]]" "9/10" "''default''"
             "HTTPException 429 (QpsExceeded 2)"] d h h'
  show ?thesis by blast
qed

text \<open>
  Claim C3. With the quota 2 and an operation whose window is empty (or missing): three
  checks at times \<open>t1 \<le> t2 \<le> t3\<close> that span at most 900ms are allowed, allowed and
  denied; the denial is the \<open>HTTPException\<close> with status 429 (not the 500 of a failed
  handler) whose detail carries the quota 2; and a check at a time \<open>t4\<close> more than one
  second after both admitted timestamps is allowed again.
\<close>

theorem rate_limit_check_quota_two:
  assumes "config_get_rate_limit_qps config = 2"
      and "rl0 op = None \<or> rl0 op = Some []"
      and "t1 \<le> t2" and "t2 \<le> t3" and "t3 - t1 \<le> 9/10"
      and "1 < t4 - t1" and "1 < t4 - t2"
  shows "rate_limit_check config rl0 t1 op = (Inr (), rl0(op \<mapsto> [t1]))
       \<and> rate_limit_check config (rl0(op \<mapsto> [t1])) t2 op = (Inr (), rl0(op \<mapsto> [t1, t2]))
       \<and> rate_limit_check config (rl0(op \<mapsto> [t1, t2])) t3 op
           = (Inl (HTTPException 429 (QpsExceeded 2)), rl0(op \<mapsto> [t1, t2]))
       \<and> rate_limit_check config (rl0(op \<mapsto> [t1, t2])) t4 op = (Inr (), rl0(op \<mapsto> [t4]))"
  using assms by (auto simp: rate_limit_check_eq)

theorem rate_limit_check_quota_two_witness:
  "config_get_rate_limit_qps None = 2
   \<and> rate_limit_check None Map.empty 10 ''default'' = (Inr (), [''default'' \<mapsto> [10]])
   \<and> rate_limit_check None [''default'' \<mapsto> [10]] (104/10) ''default''
       = (Inr (), [''default'' \<mapsto> [10, 104/10]])
   \<and> rate_limit_check None [''default'' \<mapsto> [10, 104/10]] (109/10) ''default''
       = (Inl (HTTPException 429 (QpsExceeded 2)), [''default'' \<mapsto> [10, 104/10]])
   \<and> rate_limit_check None [''default'' \<mapsto> [10, 104/10]] (115/10) ''default''
       = (Inr (), [''default'' \<mapsto> [115/10]])"
  using rate_limit_check_quota_two
          [of None Map.empty "''default''" 10 "104/10" "109/10" "115/10"]
  by (simp add: config_get_rate_limit_qps_def)

subsection \<open>Cache keys\<close>

lemma str_join_Cons: "str_join sep (x # xs) = x @ concat (map (\<lambda>y. sep @ y) xs)"
  by (induction xs arbitrary: x) auto

lemma get_cache_key_concat:
  "get_cache_key operation kwargs =
     operation @ concat (map (\<lambda>(k, v). '':'' @ k @ ''='' @ py_str v) (sort_key fst kwargs))"
  by (simp add: get_cache_key_def str_join_Cons map_idI case_prod_unfold comp_def)

lemma sort_key_fst_unique:
  assumes "distinct (map fst xs)" "distinct (map fst ys)" "map_of xs = map_of ys"
  shows "sort_key fst xs = sort_key fst ys"
proof -
  from assms have s: "set xs = set ys" by (simp add: map_of_inject_set)
  from assms have "distinct xs" "distinct ys" by (auto simp: distinct_map)
  with s have m: "mset xs = mset (sort_key fst ys)" by (simp add: set_eq_iff_mset_eq_distinct)
  from assms(1) have i: "inj_on fst (set xs)" by (simp add: distinct_map)
  show ?thesis by (rule sort_key_inj_key_eq [OF m i]) simp
qed

lemma get_cache_key_order:
  assumes "distinct (map fst xs)" "distinct (map fst ys)" "map_of xs = map_of ys"
  shows "get_cache_key operation xs = get_cache_key operation ys"
  by (simp add: get_cache_key_def sort_key_fst_unique [OF assms])

lemma insort_key_map_same:
  assumes "\<And>x. f (g x) = f x"
  shows "insort_key f (g x) (map g ys) = map g (insort_key f x ys)"
  by (induction ys) (simp_all add: assms)

lemma sort_key_map_same:
  assumes "\<And>x. f (g x) = f x"
  shows "sort_key f (map g xs) = map g (sort_key f xs)"
  by (induction xs) (simp_all add: insort_key_map_same assms)

lemma get_cache_key_differs_list:
  assumes d: "distinct (map fst kw)" and m: "(k, v) \<in> set kw" and n: "py_str v \<noteq> py_str v'"
  shows "get_cache_key operation kw
           \<noteq> get_cache_key operation (map (\<lambda>(k', x). (k', if k' = k then v' else x)) kw)"
proof -
  let ?g = "\<lambda>(k', x). (k', if k' = k then v' else x)"
  let ?s = "sort_key fst kw"
  have sk: "sort_key fst (map ?g kw) = map ?g ?s"
    by (rule sort_key_map_same) auto
  have "mset (map fst ?s) = mset (map fst kw)" by simp
  with d have ds: "distinct (map fst ?s)"
    by (metis mset_eq_imp_distinct_iff)
  from m have "(k, v) \<in> set ?s" by simp
  then obtain pre post where sp: "?s = pre @ (k, v) # post"
    by (meson split_list)
  from ds sp have kp: "k \<notin> fst ` set pre" "k \<notin> fst ` set post" by auto
  have "map ?g pre = pre" using kp(1) by (intro map_idI) (auto simp: image_iff)
  moreover have "map ?g post = post" using kp(2) by (intro map_idI) (auto simp: image_iff)
  ultimately have ms: "map ?g ?s = pre @ (k, v') # post" by (simp add: sp)
  show ?thesis
    using n by (simp add: get_cache_key_concat sk ms) (simp add: sp)
qed

lemma map_of_replace_value_apply:
  "map_of (map (\<lambda>(k', x). (k', if k' = k then v' else x)) kw) x =
     (if x = k then (case map_of kw k of None \<Rightarrow> None | Some u \<Rightarrow> Some v') else map_of kw x)"
  by (induction kw) auto

lemma map_of_replace_value:
  assumes "map_of kw k = Some v"
  shows "map_of (map (\<lambda>(k', x). (k', if k' = k then v' else x)) kw) = (map_of kw)(k \<mapsto> v')"
  using assms by (auto simp: fun_eq_iff map_of_replace_value_apply)

lemma get_cache_key_differs:
  assumes d1: "distinct (map fst kw1)" and d2: "distinct (map fst kw2)"
      and v: "map_of kw1 k = Some v" and u: "map_of kw2 = (map_of kw1)(k \<mapsto> v')"
      and n: "py_str v \<noteq> py_str v'"
  shows "get_cache_key operation kw1 \<noteq> get_cache_key operation kw2"
proof -
  let ?kw = "map (\<lambda>(k', x). (k', if k' = k then v' else x)) kw1"
  have mf: "map fst ?kw = map fst kw1" by (induction kw1) auto
  from d1 have d: "distinct (map fst ?kw)" by (simp only: mf)
  have "map_of ?kw = map_of kw2" by (simp add: map_of_replace_value [OF v] u)
  then have e: "get_cache_key operation ?kw = get_cache_key operation kw2"
    by (rule get_cache_key_order [OF d d2])
  from v have "(k, v) \<in> set kw1" by (rule map_of_SomeD)
  from get_cache_key_differs_list [OF d1 this n, of operation] e show ?thesis by simp
qed

text \<open>
  Claim C9, as stated, fails in its second half: two calls can differ in the value of one
  parameter and build the same key, because the key holds the text \<^verbatim>\<open>f"{v}"\<close> of each
  value, and \<^verbatim>\<open>None\<close> and the string \<^verbatim>\<open>"None"\<close> have the same text. These are the keys
  of \<^verbatim>\<open>GET /records/dst1\<close> and of \<^verbatim>\<open>GET /records/dst1?view_id=None\<close>.
\<close>

theorem get_cache_key_collision:
  "PNone \<noteq> PStr ''None''
   \<and> get_cache_key ''records''
        [(''datasheet_id'', PStr ''dst1''), (''view_id'', PNone), (''page_size'', PInt 100),
         (''page_token'', PNone), (''filter_formula'', PNone)]
     = get_cache_key ''records''
        [(''datasheet_id'', PStr ''dst1''), (''view_id'', PStr ''None''),
         (''page_size'', PInt 100), (''page_token'', PNone), (''filter_formula'', PNone)]"
proof -
  have "get_cache_key ''records''
        [(''datasheet_id'', PStr ''dst1''), (''view_id'', PNone), (''page_size'', PInt 100),
         (''page_token'', PNone), (''filter_formula'', PNone)]
     = get_cache_key ''records''
        [(''datasheet_id'', PStr ''dst1''), (''view_id'', PStr ''None''),
         (''page_size'', PInt 100), (''page_token'', PNone), (''filter_formula'', PNone)]"
    by code_simp
  then show ?thesis by simp
qed

text \<open>
  Claim C9, amended. For keyword arguments with distinct names, the key is a function of
  the operation name and of the map from parameter names to values: two argument lists
  with the same map, in whatever order, give the same key. Two calls that differ in the
  value of one parameter, all other parameters equal, give different keys whenever the
  two values differ in their text \<^verbatim>\<open>f"{v}"\<close>; two different strings do (a different
  \<^verbatim>\<open>datasheet_id\<close>).
\<close>

theorem get_cache_key_deterministic:
  assumes "distinct (map fst kw1)" and "distinct (map fst kw2)"
  shows "(map_of kw1 = map_of kw2 \<longrightarrow>
            get_cache_key operation kw1 = get_cache_key operation kw2)
       \<and> (\<forall>k v v'. map_of kw1 k = Some v \<and> map_of kw2 = (map_of kw1)(k \<mapsto> v')
              \<and> py_str v \<noteq> py_str v' \<longrightarrow>
            get_cache_key operation kw1 \<noteq> get_cache_key operation kw2)
       \<and> (\<forall>k d d'. map_of kw1 k = Some (PStr d) \<and> map_of kw2 = (map_of kw1)(k \<mapsto> PStr d')
              \<and> d \<noteq> d' \<longrightarrow>
            get_cache_key operation kw1 \<noteq> get_cache_key operation kw2)"
proof (intro conjI allI impI)
  assume "map_of kw1 = map_of kw2"
  with assms show "get_cache_key operation kw1 = get_cache_key operation kw2"
    by (rule get_cache_key_order)
next
  fix k v v'
  assume "map_of kw1 k = Some v \<and> map_of kw2 = (map_of kw1)(k \<mapsto> v') \<and> py_str v \<noteq> py_str v'"
  then have "map_of kw1 k = Some v" "map_of kw2 = (map_of kw1)(k \<mapsto> v')"
    "py_str v \<noteq> py_str v'" by simp_all
  then show "get_cache_key operation kw1 \<noteq> get_cache_key operation kw2"
    by (rule get_cache_key_differs [OF assms])
next
  fix k d d'
  assume "map_of kw1 k = Some (PStr d) \<and> map_of kw2 = (map_of kw1)(k \<mapsto> PStr d') \<and> d \<noteq> d'"
  then have "map_of kw1 k = Some (PStr d)" "map_of kw2 = (map_of kw1)(k \<mapsto> PStr d')"
    "py_str (PStr d) \<noteq> py_str (PStr d')" by simp_all
  then show "get_cache_key operation kw1 \<noteq> get_cache_key operation kw2"
    by (rule get_cache_key_differs [OF assms])
qed

theorem get_cache_key_deterministic_witness:
  "distinct (map fst [(''datasheet_id'', PStr ''X''), (''view_id'', PNone)])
   \<and> distinct (map fst [(''view_id'', PNone), (''datasheet_id'', PStr ''X'')])
   \<and> get_cache_key ''records'' [(''datasheet_id'', PStr ''X''), (''view_id'', PNone)]
       = get_cache_key ''records'' [(''view_id'', PNone), (''datasheet_id'', PStr ''X'')]
   \<and> get_cache_key ''records'' [(''datasheet_id'', PStr ''X''), (''view_id'', PNone)]
       = ''records:datasheet_id=X:view_id=None''
   \<and> get_cache_key ''records'' [(''datasheet_id'', PStr ''X''), (''view_id'', PNone)]
       \<noteq> get_cache_key ''records'' [(''view_id'', PNone), (''datasheet_id'', PStr ''Y'')]"
proof -
  let ?x = "[(''datasheet_id'', PStr ''X''), (''view_id'', PNone)]"
  let ?x' = "[(''view_id'', PNone), (''datasheet_id'', PStr ''X'')]"
  let ?y = "[(''view_id'', PNone), (''datasheet_id'', PStr ''Y'')]"
  have d: "distinct (map fst ?x)" "distinct (map fst ?x')" "distinct (map fst ?y)"
    by simp_all
  have m: "map_of ?x = map_of ?x'"
    by (auto simp: fun_eq_iff)
  have e: "get_cache_key ''records'' ?x = ''records:datasheet_id=X:view_id=None''"
    by code_simp
  have n: "map_of ?x ''datasheet_id'' = Some (PStr ''X'')
         \<and> map_of ?y = (map_of ?x)(''datasheet_id'' \<mapsto> PStr ''Y'') \<and> ''X'' \<noteq> ''Y''"
    by (auto simp: fun_eq_iff)
  from get_cache_key_deterministic [OF d(1) d(2), of "''records''"] m
  have a: "get_cache_key ''records'' ?x = get_cache_key ''records'' ?x'" by blast
  from get_cache_key_deterministic [OF d(1) d(3), of "''records''"] n
  have b: "get_cache_key ''records'' ?x \<noteq> get_cache_key ''records'' ?y" by blast
  from d a b e show ?thesis by blast
qed

subsection \<open>Record handlers\<close>

text \<open>
  Claim C1 on the code, for the sheet \<open>dst1\<close>. The key under which \<open>get_records\<close> caches
  the list is \<open>records:datasheet_id=dst1:...\<close>; the pattern that \<open>create_records\<close>
  clears is \<open>records:dst1\<close>, which is not a substring of that key. So the entry written
  by a first read survives a successful create, and the read after the create is answered
  from it (\<open>from_cache\<close> true, the list from before the create).
\<close>

theorem create_records_keeps_cached_list:
  "snd (get_records Map.empty 0 0 ''dst1'' None (Some 100) None None (Inr [''rec1'']))
     = [''records:datasheet_id=dst1:filter_formula=None:page_size=100:page_token=None:view_id=None''
          \<mapsto> \<lparr>data = [''rec1''], timestamp = 0\<rparr>]
   \<and> create_records
        [''records:datasheet_id=dst1:filter_formula=None:page_size=100:page_token=None:view_id=None''
          \<mapsto> \<lparr>data = [''rec1''], timestamp = 0\<rparr>] ''dst1'' (Inr [''rec2''])
     = (Inr (Response True [''rec2''] None),
        [''records:datasheet_id=dst1:filter_formula=None:page_size=100:page_token=None:view_id=None''
          \<mapsto> \<lparr>data = [''rec1''], timestamp = 0\<rparr>])
   \<and> fst (get_records
        [''records:datasheet_id=dst1:filter_formula=None:page_size=100:page_token=None:view_id=None''
          \<mapsto> \<lparr>data = [''rec1''], timestamp = 0\<rparr>] 1 1 ''dst1'' None (Some 100) None None
        (Inr [''rec1'', ''rec2'']))
     = Inr (Response True [''rec1''] (Some True))"
proof -
  let ?key = "''records:datasheet_id=dst1:filter_formula=None:page_size=100:page_token=None:view_id=None''"
  let ?c = "[?key \<mapsto> \<lparr>data = [''rec1''], timestamp = 0\<rparr>]"
  have k: "get_cache_key ''records''
            [(''datasheet_id'', PStr ''dst1''), (''view_id'', PNone), (''page_size'', PInt 100),
             (''page_token'', PNone), (''filter_formula'', PNone)] = ?key"
    by code_simp
  have n: "\<not> str_in ''records:dst1'' ?key"
    by code_simp
  have a: "snd (get_records Map.empty 0 0 ''dst1'' None (Some 100) None None (Inr [''rec1'']))
             = ?c"
    by (simp add: get_records_def k opt_str_def opt_int_def get_from_cache_def set_cache_def)
  have "clear_cache_pattern ?c ''records:dst1'' = ?c"
    using n by (auto simp: fun_eq_iff clear_cache_pattern_apply)
  then have b: "create_records ?c ''dst1'' (Inr [''rec2''])
                  = (Inr (Response True [''rec2''] None), ?c)"
    by (simp add: create_records_def)
  have c: "fst (get_records ?c 1 1 ''dst1'' None (Some 100) None None (Inr [''rec1'', ''rec2'']))
             = Inr (Response True [''rec1''] (Some True))"
    by (simp add: get_records_def k opt_str_def opt_int_def get_from_cache_def)
  from a b c show ?thesis by blast
qed

subsection \<open>Tree fetcher\<close>

lemma float_overflow_bound_pos: "0 < float_overflow_bound"
  by (simp add: float_overflow_bound_def)

lemma throttle_eval:
  "config_get_rate_limit_qps config < float_overflow_bound \<Longrightarrow>
   (let qps_limit = config_get_rate_limit_qps config
    in if qps_limit > 0
       then (case py_truediv 1 qps_limit of Inl e \<Rightarrow> Inl e | Inr delay \<Rightarrow> Inr [Sleep delay])
       else Inr []) = Inr (throttle config)"
  by (simp add: py_truediv_def int_to_float_def throttle_def Let_def)

lemma throttle_overflow:
  "float_overflow_bound \<le> config_get_rate_limit_qps config \<Longrightarrow>
   (let qps_limit = config_get_rate_limit_qps config
    in if qps_limit > 0
       then (case py_truediv 1 qps_limit of Inl e \<Rightarrow> Inl e | Inr delay \<Rightarrow> Inr [Sleep delay])
       else Inr []) = Inl OverflowError"
  using float_overflow_bound_pos
  by (simp add: py_truediv_def int_to_float_def Let_def)

lemma fetch_Cons_leaf:
  "node_type n \<noteq> ''Folder'' \<Longrightarrow>
   fetch_children_recursively fuel config aget (n # ns) =
     (case fetch_children_recursively fuel config aget ns of
        None \<Rightarrow> None
      | Some (Inl e, evs') \<Rightarrow> Some (Inl e, evs')
      | Some (Inr out, evs') \<Rightarrow> Some (Inr (node_dict n [] # out), evs'))"
  by (simp split: option.splits sum.splits prod.splits)

lemma fetch_Cons_fail:
  "config_get_rate_limit_qps config < float_overflow_bound \<Longrightarrow>
   node_type n = ''Folder'' \<Longrightarrow> aget (node_id n) = Inl msg \<Longrightarrow>
   fetch_children_recursively fuel config aget (n # ns) =
     Some (Inl (UpstreamError msg), throttle config @ [Aget (node_id n)])"
  by (simp add: throttle_eval)

lemma fetch_Cons_no_children:
  "config_get_rate_limit_qps config < float_overflow_bound \<Longrightarrow>
   node_type n = ''Folder'' \<Longrightarrow> aget (node_id n) = Inr det \<Longrightarrow> children det = None \<Longrightarrow>
   fetch_children_recursively fuel config aget (n # ns) =
     Some (Inl TypeError, throttle config @ [Aget (node_id n)])"
  by (simp add: throttle_eval)

lemma fetch_Cons_empty:
  "config_get_rate_limit_qps config < float_overflow_bound \<Longrightarrow>
   node_type n = ''Folder'' \<Longrightarrow> aget (node_id n) = Inr det \<Longrightarrow> children det = Some [] \<Longrightarrow>
   fetch_children_recursively fuel config aget (n # ns) =
     (case fetch_children_recursively fuel config aget ns of
        None \<Rightarrow> None
      | Some (Inl e, evs') \<Rightarrow> Some (Inl e, (throttle config @ [Aget (node_id n)]) @ evs')
      | Some (Inr out, evs') \<Rightarrow>
          Some (Inr (node_dict n [] # out), (throttle config @ [Aget (node_id n)]) @ evs'))"
  by (simp add: throttle_eval split: option.splits sum.splits prod.splits)

lemma fetch_Cons_rec:
  "config_get_rate_limit_qps config < float_overflow_bound \<Longrightarrow>
   node_type n = ''Folder'' \<Longrightarrow> aget (node_id n) = Inr det \<Longrightarrow> children det = Some cs \<Longrightarrow>
   cs \<noteq> [] \<Longrightarrow>
   fetch_children_recursively fuel config aget (n # ns) =
     (case fuel of
        0 \<Rightarrow> None
      | Suc k \<Rightarrow>
          (case fetch_children_recursively k config aget cs of
             None \<Rightarrow> None
           | Some (Inl e, evs) \<Rightarrow> Some (Inl e, throttle config @ Aget (node_id n) # evs)
           | Some (Inr ch, evs) \<Rightarrow>
               (case fetch_children_recursively fuel config aget ns of
                  None \<Rightarrow> None
                | Some (Inl e, evs') \<Rightarrow>
                    Some (Inl e, (throttle config @ Aget (node_id n) # evs) @ evs')
                | Some (Inr out, evs') \<Rightarrow>
                    Some (Inr (node_dict n ch # out),
                          (throttle config @ Aget (node_id n) # evs) @ evs'))))"
  by (simp add: throttle_eval split: option.splits sum.splits prod.splits nat.splits)

declare fetch_children_recursively.simps(2) [simp del]

lemma fetchable_enough_fuel:
  assumes ok: "config_get_rate_limit_qps config < float_overflow_bound"
  shows "fetchable aget nodes \<Longrightarrow>
   \<exists>fuel0. \<forall>fuel\<ge>fuel0. \<exists>out evs.
      fetch_children_recursively fuel config aget nodes = Some (Inr out, evs)"
proof (induction rule: fetchable.induct)
  case fetchable_Nil
  then show ?case by simp
next
  case (fetchable_leaf n ns)
  then show ?case by (fastforce simp: fetch_Cons_leaf)
next
  case (fetchable_folder n det cs ns)
  from fetchable_folder.IH obtain k1 k2 where
    k1: "\<And>fuel. k1 \<le> fuel \<Longrightarrow> \<exists>out evs. fetch_children_recursively fuel config aget cs = Some (Inr out, evs)"
    and k2: "\<And>fuel. k2 \<le> fuel \<Longrightarrow> \<exists>out evs. fetch_children_recursively fuel config aget ns = Some (Inr out, evs)"
    by blast
  show ?case
  proof (intro exI[of _ "max (Suc k1) k2"] allI impI)
    fix fuel assume f: "max (Suc k1) k2 \<le> fuel"
    then obtain k where k: "fuel = Suc k" "k1 \<le> k" by (cases fuel) auto
    from k1 [OF k(2)] obtain ch e1 where c: "fetch_children_recursively k config aget cs = Some (Inr ch, e1)" by blast
    from f have "k2 \<le> fuel" by simp
    from k2 [OF this] obtain out e2 where r: "fetch_children_recursively fuel config aget ns = Some (Inr out, e2)" by blast
    show "\<exists>out evs. fetch_children_recursively fuel config aget (n # ns) = Some (Inr out, evs)"
    proof (cases "cs = []")
      case True
      with fetchable_folder.hyps r show ?thesis by (simp add: fetch_Cons_empty [OF ok])
    next
      case False
      with fetchable_folder.hyps r c k show ?thesis by (simp add: fetch_Cons_rec [OF ok])
    qed
  qed
qed

lemma fetch_cases_induct [case_names Nil leaf fail no_children empty no_fuel rec]:
  assumes Nil: "\<And>fuel. P fuel []"
    and leaf: "\<And>fuel n ns. node_type n \<noteq> ''Folder'' \<Longrightarrow> P fuel ns \<Longrightarrow> P fuel (n # ns)"
    and fail: "\<And>fuel n ns msg. node_type n = ''Folder'' \<Longrightarrow> aget (node_id n) = Inl msg \<Longrightarrow>
                 P fuel (n # ns)"
    and no_children: "\<And>fuel n ns det. node_type n = ''Folder'' \<Longrightarrow> aget (node_id n) = Inr det \<Longrightarrow>
                 children det = None \<Longrightarrow> P fuel (n # ns)"
    and empty: "\<And>fuel n ns det. node_type n = ''Folder'' \<Longrightarrow> aget (node_id n) = Inr det \<Longrightarrow>
                 children det = Some [] \<Longrightarrow> P fuel ns \<Longrightarrow> P fuel (n # ns)"
    and no_fuel: "\<And>n ns det cs. node_type n = ''Folder'' \<Longrightarrow> aget (node_id n) = Inr det \<Longrightarrow>
                 children det = Some cs \<Longrightarrow> cs \<noteq> [] \<Longrightarrow> P 0 (n # ns)"
    and rec: "\<And>k n ns det cs. node_type n = ''Folder'' \<Longrightarrow> aget (node_id n) = Inr det \<Longrightarrow>
                 children det = Some cs \<Longrightarrow> cs \<noteq> [] \<Longrightarrow> P k cs \<Longrightarrow> P (Suc k) ns \<Longrightarrow>
                 P (Suc k) (n # ns)"
  shows "P fuel (nodes :: node list)"
proof -
  have step: "P fuel (n # ns)"
    if tl: "P fuel ns" and below: "\<And>k cs. fuel = Suc k \<Longrightarrow> P k cs" for fuel n ns
  proof (cases "node_type n = ''Folder''")
    case False
    from False tl show ?thesis by (rule leaf)
  next
    case folder: True
    show ?thesis
    proof (cases "aget (node_id n)")
      case (Inl msg)
      from folder Inl show ?thesis by (rule fail)
    next
      case (Inr det)
      show ?thesis
      proof (cases "children det")
        case None
        from folder Inr None show ?thesis by (rule no_children)
      next
        case (Some cs)
        show ?thesis
        proof (cases "cs = []")
          case True
          with Some have "children det = Some []" by simp
          from folder Inr this tl show ?thesis by (rule empty)
        next
          case ne: False
          show ?thesis
          proof (cases fuel)
            case 0
            from folder Inr Some ne have "P 0 (n # ns)" by (rule no_fuel)
            with 0 show ?thesis by simp
          next
            case (Suc k)
            from below [OF Suc] have c: "P k cs" .
            from tl Suc have t: "P (Suc k) ns" by simp
            from folder Inr Some ne c t have "P (Suc k) (n # ns)" by (rule rec)
            with Suc show ?thesis by simp
          qed
        qed
      qed
    qed
  qed
  show ?thesis
  proof (induction fuel arbitrary: nodes)
    case 0
    show ?case
    proof (induction nodes)
      case Nil
      show ?case by (rule assms(1))
    next
      case (Cons n ns)
      then show ?case by (rule step) simp
    qed
  next
    case (Suc k)
    show ?case
    proof (induction nodes)
      case Nil
      show ?case by (rule assms(1))
    next
      case (Cons n ns)
      then show ?case using Suc by (intro step) auto
    qed
  qed
qed

lemma fetch_leaf:
  "node_type n \<noteq> ''Folder'' \<Longrightarrow>
   fetch_children_recursively fuel config aget (n # ns) =
     map_option (\<lambda>(r, evs'). (map_sum id ((#) (node_dict n [])) r, evs'))
       (fetch_children_recursively fuel config aget ns)"
  by (simp add: fetch_Cons_leaf split: option.splits sum.splits prod.splits)

lemma fetch_empty:
  "config_get_rate_limit_qps config < float_overflow_bound \<Longrightarrow>
   node_type n = ''Folder'' \<Longrightarrow> aget (node_id n) = Inr det \<Longrightarrow> children det = Some [] \<Longrightarrow>
   fetch_children_recursively fuel config aget (n # ns) =
     map_option (\<lambda>(r, evs'). (map_sum id ((#) (node_dict n [])) r,
                               (throttle config @ [Aget (node_id n)]) @ evs'))
       (fetch_children_recursively fuel config aget ns)"
  by (simp add: fetch_Cons_empty split: option.splits sum.splits prod.splits)

lemma fetch_rec:
  "config_get_rate_limit_qps config < float_overflow_bound \<Longrightarrow>
   node_type n = ''Folder'' \<Longrightarrow> aget (node_id n) = Inr det \<Longrightarrow> children det = Some cs \<Longrightarrow>
   cs \<noteq> [] \<Longrightarrow>
   fetch_children_recursively (Suc k) config aget (n # ns) =
     (case fetch_children_recursively k config aget cs of
        None \<Rightarrow> None
      | Some (Inl e, evs) \<Rightarrow> Some (Inl e, throttle config @ Aget (node_id n) # evs)
      | Some (Inr ch, evs) \<Rightarrow>
          map_option (\<lambda>(r, evs'). (map_sum id ((#) (node_dict n ch)) r,
                                    (throttle config @ Aget (node_id n) # evs) @ evs'))
            (fetch_children_recursively (Suc k) config aget ns))"
  by (simp add: fetch_Cons_rec split: option.splits sum.splits prod.splits)

lemma fetch_no_fuel:
  "config_get_rate_limit_qps config < float_overflow_bound \<Longrightarrow>
   node_type n = ''Folder'' \<Longrightarrow> aget (node_id n) = Inr det \<Longrightarrow> children det = Some cs \<Longrightarrow>
   cs \<noteq> [] \<Longrightarrow> fetch_children_recursively 0 config aget (n # ns) = None"
  by (simp add: fetch_Cons_rec)



lemma map_sum_Cons_Inl: "map_sum id ((#) t) r = Inl e \<longleftrightarrow> r = Inl e"
  by (cases r) auto

lemma Aget_notin_throttle: "Aget i \<notin> set (throttle config)"
  by (simp add: throttle_def)


lemma fetch_failure_propagates:
  assumes ok: "config_get_rate_limit_qps config < float_overflow_bound"
  shows "fetch_children_recursively fuel config aget nodes = Some (r, evs) \<Longrightarrow>
   Aget i \<in> set evs \<Longrightarrow> aget i = Inl msg \<Longrightarrow> r = Inl (UpstreamError msg)"
proof (induction fuel nodes arbitrary: r evs rule: fetch_cases_induct [where aget = aget])
  case (Nil fuel)
  then show ?case by simp
next
  case (leaf fuel n ns)
  from leaf.prems(1) leaf.hyps obtain r' where
    "fetch_children_recursively fuel config aget ns = Some (r', evs)"
    "r = map_sum id ((#) (node_dict n [])) r'"
    by (auto simp: fetch_leaf)
  with leaf.IH leaf.prems show ?case by (auto simp: map_sum_Cons_Inl)
next
  case (fail fuel n ns msg')
  then show ?case by (auto simp: fetch_Cons_fail [OF ok] Aget_notin_throttle)
next
  case (no_children fuel n ns det)
  then show ?case by (auto simp: fetch_Cons_no_children [OF ok] Aget_notin_throttle)
next
  case (empty fuel n ns det)
  from empty.prems(1) empty.hyps obtain r' evs' where
    t: "fetch_children_recursively fuel config aget ns = Some (r', evs')"
    and r: "r = map_sum id ((#) (node_dict n [])) r'"
    and e: "evs = (throttle config @ [Aget (node_id n)]) @ evs'"
    by (auto simp: fetch_empty [OF ok])
  from e empty.prems(2,3) empty.hyps have "Aget i \<in> set evs'"
    by (auto simp: Aget_notin_throttle)
  from empty.IH [OF t this empty.prems(3)] r show ?case by simp
next
  case (no_fuel n ns det cs)
  then show ?case by (simp add: fetch_no_fuel [OF ok])
next
  case (rec k n ns det cs)
  from rec.prems(1) rec.hyps obtain rc where
    c: "fetch_children_recursively k config aget cs = Some rc"
    by (cases "fetch_children_recursively k config aget cs") (simp_all add: fetch_rec [OF ok])
  obtain rv evc where rc: "rc = (rv, evc)" by (cases rc)
  show ?case
  proof (cases rv)
    case (Inl e)
    with rec.prems(1) rec.hyps c rc have r: "r = Inl e"
      and e: "evs = throttle config @ Aget (node_id n) # evc"
      by (simp_all add: fetch_rec [OF ok])
    from e rec.prems(2,3) rec.hyps have "Aget i \<in> set evc"
      by (auto simp: Aget_notin_throttle)
    from rec.IH(1) [OF c [unfolded rc] this rec.prems(3)] Inl r show ?thesis by simp
  next
    case (Inr ch)
    with rec.prems(1) rec.hyps c rc obtain r' evs' where
      t: "fetch_children_recursively (Suc k) config aget ns = Some (r', evs')"
      and r: "r = map_sum id ((#) (node_dict n ch)) r'"
      and e: "evs = (throttle config @ Aget (node_id n) # evc) @ evs'"
      by (auto simp: fetch_rec [OF ok])
    from e rec.prems(2,3) rec.hyps have "Aget i \<in> set evc \<or> Aget i \<in> set evs'"
      by (auto simp: Aget_notin_throttle)
    then show ?thesis
    proof
      assume "Aget i \<in> set evc"
      from rec.IH(1) [OF c [unfolded rc] this rec.prems(3)] Inr show ?thesis by simp
    next
      assume "Aget i \<in> set evs'"
      from rec.IH(2) [OF t this rec.prems(3)] r show ?thesis by simp
    qed
  qed
qed

lemma fetch_fails_not_Nil: "fetch_fails aget cs msg \<Longrightarrow> cs \<noteq> []"
  by (induction rule: fetch_fails.induct) simp_all

lemma fetch_fails_enough_fuel:
  assumes ok: "config_get_rate_limit_qps config < float_overflow_bound"
  shows "fetch_fails aget nodes msg \<Longrightarrow>
   \<exists>fuel0. \<forall>fuel\<ge>fuel0. \<exists>evs.
      fetch_children_recursively fuel config aget nodes = Some (Inl (UpstreamError msg), evs)"
proof (induction rule: fetch_fails.induct)
  case (fails_here n msg ns)
  then show ?case by (simp add: fetch_Cons_fail [OF ok])
next
  case (fails_below n det cs msg ns)
  from fails_below.IH obtain k1 where
    k1: "\<And>fuel. k1 \<le> fuel \<Longrightarrow> \<exists>evs. fetch_children_recursively fuel config aget cs
            = Some (Inl (UpstreamError msg), evs)"
    by blast
  from fails_below.hyps have ne: "cs \<noteq> []" by (simp add: fetch_fails_not_Nil)
  show ?case
  proof (intro exI[of _ "Suc k1"] allI impI)
    fix fuel assume "Suc k1 \<le> fuel"
    then obtain k where k: "fuel = Suc k" "k1 \<le> k" by (cases fuel) auto
    from k1 [OF k(2)] obtain e1 where
      "fetch_children_recursively k config aget cs = Some (Inl (UpstreamError msg), e1)" by blast
    with fails_below.hyps ne k
    show "\<exists>evs. fetch_children_recursively fuel config aget (n # ns)
            = Some (Inl (UpstreamError msg), evs)"
      by (simp add: fetch_rec [OF ok])
  qed
next
  case (fails_after_leaf n ns msg)
  from fails_after_leaf.IH obtain k2 where
    k2: "\<And>fuel. k2 \<le> fuel \<Longrightarrow> \<exists>evs. fetch_children_recursively fuel config aget ns
            = Some (Inl (UpstreamError msg), evs)"
    by blast
  show ?case
  proof (intro exI[of _ k2] allI impI)
    fix fuel assume "k2 \<le> fuel"
    from k2 [OF this] obtain e2 where
      "fetch_children_recursively fuel config aget ns = Some (Inl (UpstreamError msg), e2)" by blast
    with fails_after_leaf.hyps
    show "\<exists>evs. fetch_children_recursively fuel config aget (n # ns)
            = Some (Inl (UpstreamError msg), evs)"
      by (simp add: fetch_leaf)
  qed
next
  case (fails_after_folder n det cs ns msg)
  from fails_after_folder.IH obtain k2 where
    k2: "\<And>fuel. k2 \<le> fuel \<Longrightarrow> \<exists>evs. fetch_children_recursively fuel config aget ns
            = Some (Inl (UpstreamError msg), evs)"
    by blast
  from fetchable_enough_fuel [OF ok fails_after_folder.hyps(4)] obtain k1 where
    k1: "\<And>fuel. k1 \<le> fuel \<Longrightarrow> \<exists>out evs. fetch_children_recursively fuel config aget cs
            = Some (Inr out, evs)"
    by blast
  show ?case
  proof (intro exI[of _ "max (Suc k1) k2"] allI impI)
    fix fuel assume f: "max (Suc k1) k2 \<le> fuel"
    then obtain k where k: "fuel = Suc k" "k1 \<le> k" by (cases fuel) auto
    from k1 [OF k(2)] obtain ch e1 where
      c: "fetch_children_recursively k config aget cs = Some (Inr ch, e1)" by blast
    from f have "k2 \<le> fuel" by simp
    from k2 [OF this] obtain e2 where
      r: "fetch_children_recursively fuel config aget ns = Some (Inl (UpstreamError msg), e2)"
      by blast
    show "\<exists>evs. fetch_children_recursively fuel config aget (n # ns)
            = Some (Inl (UpstreamError msg), evs)"
    proof (cases "cs = []")
      case True
      with fails_after_folder.hyps r show ?thesis by (simp add: fetch_empty [OF ok])
    next
      case False
      with fails_after_folder.hyps r c k show ?thesis by (simp add: fetch_rec [OF ok])
    qed
  qed
qed

lemma fetch_events:
  assumes ok: "config_get_rate_limit_qps config < float_overflow_bound"
  shows "fetch_children_recursively fuel config aget nodes = Some (r, evs) \<Longrightarrow>
   set evs \<subseteq> set (throttle config) \<union> range Aget"
proof (induction fuel nodes arbitrary: r evs rule: fetch_cases_induct [where aget = aget])
  case (Nil fuel)
  then show ?case by simp
next
  case (leaf fuel n ns)
  from leaf.prems(1) leaf.hyps obtain r' where
    "fetch_children_recursively fuel config aget ns = Some (r', evs)"
    by (auto simp: fetch_leaf)
  with leaf.IH show ?case by blast
next
  case (fail fuel n ns msg')
  then show ?case by (auto simp: fetch_Cons_fail [OF ok])
next
  case (no_children fuel n ns det)
  then show ?case by (auto simp: fetch_Cons_no_children [OF ok])
next
  case (empty fuel n ns det)
  from empty.prems(1) empty.hyps obtain r' evs' where
    t: "fetch_children_recursively fuel config aget ns = Some (r', evs')"
    and e: "evs = (throttle config @ [Aget (node_id n)]) @ evs'"
    by (auto simp: fetch_empty [OF ok])
  from empty.IH [OF t] e show ?case by auto
next
  case (no_fuel n ns det cs)
  then show ?case by (simp add: fetch_no_fuel [OF ok])
next
  case (rec k n ns det cs)
  from rec.prems(1) rec.hyps obtain rc where
    c: "fetch_children_recursively k config aget cs = Some rc"
    by (cases "fetch_children_recursively k config aget cs") (simp_all add: fetch_rec [OF ok])
  obtain rv evc where rc: "rc = (rv, evc)" by (cases rc)
  note ic = rec.IH(1) [OF c [unfolded rc]]
  show ?case
  proof (cases rv)
    case (Inl e)
    with rec.prems(1) rec.hyps c rc have "evs = throttle config @ Aget (node_id n) # evc"
      by (simp_all add: fetch_rec [OF ok])
    with ic show ?thesis by auto
  next
    case (Inr ch)
    with rec.prems(1) rec.hyps c rc obtain r' evs' where
      t: "fetch_children_recursively (Suc k) config aget ns = Some (r', evs')"
      and e: "evs = (throttle config @ Aget (node_id n) # evc) @ evs'"
      by (auto simp: fetch_rec [OF ok])
    from rec.IH(2) [OF t] ic e show ?thesis by auto
  qed
qed

lemma fetch_no_zero_division:
  assumes ok: "config_get_rate_limit_qps config < float_overflow_bound"
  shows "fetch_children_recursively fuel config aget nodes = Some (r, evs) \<Longrightarrow>
   r \<noteq> Inl ZeroDivisionError"
proof (induction fuel nodes arbitrary: r evs rule: fetch_cases_induct [where aget = aget])
  case (Nil fuel)
  then show ?case by auto
next
  case (leaf fuel n ns)
  from leaf.prems(1) leaf.hyps obtain r' where
    "fetch_children_recursively fuel config aget ns = Some (r', evs)"
    "r = map_sum id ((#) (node_dict n [])) r'"
    by (auto simp: fetch_leaf)
  with leaf.IH show ?case by (auto simp: map_sum_Cons_Inl)
next
  case (fail fuel n ns msg')
  then show ?case by (auto simp: fetch_Cons_fail [OF ok])
next
  case (no_children fuel n ns det)
  then show ?case by (auto simp: fetch_Cons_no_children [OF ok])
next
  case (empty fuel n ns det)
  from empty.prems(1) empty.hyps obtain r' evs' where
    t: "fetch_children_recursively fuel config aget ns = Some (r', evs')"
    and r: "r = map_sum id ((#) (node_dict n [])) r'"
    by (auto simp: fetch_empty [OF ok])
  from empty.IH [OF t] r show ?case by (auto simp: map_sum_Cons_Inl)
next
  case (no_fuel n ns det cs)
  then show ?case by (simp add: fetch_no_fuel [OF ok])
next
  case (rec k n ns det cs)
  from rec.prems(1) rec.hyps obtain rc where
    c: "fetch_children_recursively k config aget cs = Some rc"
    by (cases "fetch_children_recursively k config aget cs") (simp_all add: fetch_rec [OF ok])
  obtain rv evc where rc: "rc = (rv, evc)" by (cases rc)
  note ic = rec.IH(1) [OF c [unfolded rc]]
  show ?case
  proof (cases rv)
    case (Inl e)
    with rec.prems(1) rec.hyps c rc have "r = Inl e"
      by (simp_all add: fetch_rec [OF ok])
    with ic Inl show ?thesis by auto
  next
    case (Inr ch)
    with rec.prems(1) rec.hyps c rc obtain r' evs' where
      t: "fetch_children_recursively (Suc k) config aget ns = Some (r', evs')"
      and r: "r = map_sum id ((#) (node_dict n ch)) r'"
      by (auto simp: fetch_rec [OF ok])
    from rec.IH(2) [OF t] r show ?thesis by (auto simp: map_sum_Cons_Inl)
  qed
qed

lemma fetch_config_independent:
  assumes ok: "config_get_rate_limit_qps config < float_overflow_bound"
    and ok': "config_get_rate_limit_qps config' < float_overflow_bound"
  shows "fetch_children_recursively fuel config aget nodes = Some (r, evs) \<Longrightarrow>
   \<exists>evs'. fetch_children_recursively fuel config' aget nodes = Some (r, evs')"
proof (induction fuel nodes arbitrary: r evs rule: fetch_cases_induct [where aget = aget])
  case (Nil fuel)
  then show ?case by auto
next
  case (leaf fuel n ns)
  from leaf.prems(1) leaf.hyps obtain r' where
    t: "fetch_children_recursively fuel config aget ns = Some (r', evs)"
    and r: "r = map_sum id ((#) (node_dict n [])) r'"
    by (auto simp: fetch_leaf)
  from leaf.IH [OF t] r leaf.hyps show ?case by (auto simp: fetch_leaf)
next
  case (fail fuel n ns msg')
  then show ?case by (auto simp: fetch_Cons_fail [OF ok] fetch_Cons_fail [OF ok'])
next
  case (no_children fuel n ns det)
  then show ?case by (auto simp: fetch_Cons_no_children [OF ok] fetch_Cons_no_children [OF ok'])
next
  case (empty fuel n ns det)
  from empty.prems(1) empty.hyps obtain r' evs' where
    t: "fetch_children_recursively fuel config aget ns = Some (r', evs')"
    and r: "r = map_sum id ((#) (node_dict n [])) r'"
    by (auto simp: fetch_empty [OF ok] fetch_empty [OF ok'])
  from empty.IH [OF t] r empty.hyps show ?case by (auto simp: fetch_empty [OF ok] fetch_empty [OF ok'])
next
  case (no_fuel n ns det cs)
  then show ?case by (simp add: fetch_no_fuel [OF ok] fetch_no_fuel [OF ok'])
next
  case (rec k n ns det cs)
  from rec.prems(1) rec.hyps obtain rc where
    c: "fetch_children_recursively k config aget cs = Some rc"
    by (cases "fetch_children_recursively k config aget cs") (simp_all add: fetch_rec [OF ok] fetch_rec [OF ok'])
  obtain rv evc where rc: "rc = (rv, evc)" by (cases rc)
  from rec.IH(1) [OF c [unfolded rc]] obtain evc' where
    c': "fetch_children_recursively k config' aget cs = Some (rv, evc')" by blast
  show ?case
  proof (cases rv)
    case (Inl e)
    with rec.prems(1) rec.hyps c rc have "r = Inl e"
      by (simp_all add: fetch_rec [OF ok] fetch_rec [OF ok'])
    with c' Inl rec.hyps show ?thesis by (simp add: fetch_rec [OF ok] fetch_rec [OF ok'])
  next
    case (Inr ch)
    with rec.prems(1) rec.hyps c rc obtain r' evs' where
      t: "fetch_children_recursively (Suc k) config aget ns = Some (r', evs')"
      and r: "r = map_sum id ((#) (node_dict n ch)) r'"
      by (auto simp: fetch_rec [OF ok] fetch_rec [OF ok'])
    from rec.IH(2) [OF t] obtain evs'' where
      "fetch_children_recursively (Suc k) config' aget ns = Some (r', evs'')" by blast
    with c' Inr r rec.hyps show ?thesis by (simp add: fetch_rec [OF ok] fetch_rec [OF ok'])
  qed
qed

lemma fetch_Cons_overflow:
  "float_overflow_bound \<le> config_get_rate_limit_qps config \<Longrightarrow> node_type n = ''Folder'' \<Longrightarrow>
   fetch_children_recursively fuel config aget (n # ns) = Some (Inl OverflowError, [])"
  by (simp add: fetch_children_recursively.simps(2) throttle_overflow)

lemma fetch_overflow:
  assumes "float_overflow_bound \<le> config_get_rate_limit_qps config"
  shows "fetch_children_recursively fuel config aget nodes =
           (if list_ex (\<lambda>n. node_type n = ''Folder'') nodes then Some (Inl OverflowError, [])
            else Some (Inr (map (\<lambda>n. node_dict n []) nodes), []))"
proof (induction nodes)
  case Nil
  show ?case by simp
next
  case (Cons n ns)
  show ?case
  proof (cases "node_type n = ''Folder''")
    case True
    with assms show ?thesis by (simp add: fetch_Cons_overflow)
  next
    case False
    with Cons show ?thesis by (simp add: fetch_leaf)
  qed
qed


lemma fetch_failure_propagates_any:
  assumes a: "fetch_children_recursively fuel config aget nodes = Some (r, evs)"
    and i: "Aget i \<in> set evs" and f: "aget i = Inl msg"
  shows "r = Inl (UpstreamError msg)"
proof (cases "config_get_rate_limit_qps config < float_overflow_bound")
  case True
  from fetch_failure_propagates [OF True a i f] show ?thesis .
next
  case False
  then have o: "float_overflow_bound \<le> config_get_rate_limit_qps config" by simp
  from a have "evs = []" by (auto simp: fetch_overflow [OF o] split: if_splits)
  with i show ?thesis by simp
qed

lemma fetch_no_zero_division_any:
  assumes a: "fetch_children_recursively fuel config aget nodes = Some (r, evs)"
  shows "r \<noteq> Inl ZeroDivisionError"
proof (cases "config_get_rate_limit_qps config < float_overflow_bound")
  case True
  from fetch_no_zero_division [OF True a] show ?thesis .
next
  case False
  then have o: "float_overflow_bound \<le> config_get_rate_limit_qps config" by simp
  from a show ?thesis by (auto simp: fetch_overflow [OF o] split: if_splits)
qed

lemma fetch_no_overflow:
  assumes ok: "config_get_rate_limit_qps config < float_overflow_bound"
  shows "fetch_children_recursively fuel config aget nodes = Some (r, evs) \<Longrightarrow>
   r \<noteq> Inl OverflowError"
proof (induction fuel nodes arbitrary: r evs rule: fetch_cases_induct [where aget = aget])
  case (Nil fuel)
  then show ?case by auto
next
  case (leaf fuel n ns)
  from leaf.prems(1) leaf.hyps obtain r' where
    "fetch_children_recursively fuel config aget ns = Some (r', evs)"
    "r = map_sum id ((#) (node_dict n [])) r'"
    by (auto simp: fetch_leaf)
  with leaf.IH show ?case by (auto simp: map_sum_Cons_Inl)
next
  case (fail fuel n ns msg')
  then show ?case by (auto simp: fetch_Cons_fail [OF ok])
next
  case (no_children fuel n ns det)
  then show ?case by (auto simp: fetch_Cons_no_children [OF ok])
next
  case (empty fuel n ns det)
  from empty.prems(1) empty.hyps obtain r' evs' where
    t: "fetch_children_recursively fuel config aget ns = Some (r', evs')"
    and r: "r = map_sum id ((#) (node_dict n [])) r'"
    by (auto simp: fetch_empty [OF ok])
  from empty.IH [OF t] r show ?case by (auto simp: map_sum_Cons_Inl)
next
  case (no_fuel n ns det cs)
  then show ?case by (simp add: fetch_no_fuel [OF ok])
next
  case (rec k n ns det cs)
  from rec.prems(1) rec.hyps obtain rc where
    c: "fetch_children_recursively k config aget cs = Some rc"
    by (cases "fetch_children_recursively k config aget cs") (simp_all add: fetch_rec [OF ok])
  obtain rv evc where rc: "rc = (rv, evc)" by (cases rc)
  note ic = rec.IH(1) [OF c [unfolded rc]]
  show ?case
  proof (cases rv)
    case (Inl e)
    with rec.prems(1) rec.hyps c rc have "r = Inl e"
      by (simp_all add: fetch_rec [OF ok])
    with ic Inl show ?thesis by auto
  next
    case (Inr ch)
    with rec.prems(1) rec.hyps c rc obtain r' evs' where
      t: "fetch_children_recursively (Suc k) config aget ns = Some (r', evs')"
      and r: "r = map_sum id ((#) (node_dict n ch)) r'"
      by (auto simp: fetch_rec [OF ok])
    from rec.IH(2) [OF t] r show ?thesis by (auto simp: map_sum_Cons_Inl)
  qed
qed

lemma fetch_fails_has_folder:
  "fetch_fails aget nodes msg \<Longrightarrow> list_ex (\<lambda>n. node_type n = ''Folder'') nodes"
  by (induction rule: fetch_fails.induct) simp_all

lemma fetch_fails_enough_fuel_any:
  assumes f: "fetch_fails aget nodes msg"
  shows "\<exists>fuel0. \<forall>fuel\<ge>fuel0. \<exists>evs.
      fetch_children_recursively fuel config aget nodes
        = Some (Inl (if config_get_rate_limit_qps config < float_overflow_bound
                     then UpstreamError msg else OverflowError), evs)"
proof (cases "config_get_rate_limit_qps config < float_overflow_bound")
  case True
  from fetch_fails_enough_fuel [OF True f] True show ?thesis by simp
next
  case False
  then have o: "float_overflow_bound \<le> config_get_rate_limit_qps config" by simp
  from fetch_fails_has_folder [OF f] False show ?thesis
    by (simp add: fetch_overflow [OF o])
qed



text \<open>
  Claim C6. If the detail fetch of a folder that the traversal asks for raises, at any
  depth, the fetcher's result is that exception, not a list; on every hierarchy where the
  traversal meets such a folder, enough fuel gives an exception as the result, for every
  quota: that exception, or the \<open>OverflowError\<close> of the delay when the quota is too large
  to convert to a float. The handler turns the exception into the \<open>HTTPException\<close> 500
  and writes nothing into the cache; a body that it returns carries the cached tree or the
  whole tree that the fetcher returned.
\<close>

theorem fetch_failure_aborts_tree_request:
  "(fetch_children_recursively fuel config aget nodes = Some (r, evs) \<and> Aget i \<in> set evs
      \<and> aget i = Inl msg \<longrightarrow> r = Inl (UpstreamError msg))
   \<and> (fetch_fails aget nodes msg \<longrightarrow>
        (\<exists>fuel0. \<forall>fuel\<ge>fuel0. \<exists>evs.
            fetch_children_recursively fuel config aget nodes
              = Some (Inl (if config_get_rate_limit_qps config < float_overflow_bound
                           then UpstreamError msg else OverflowError), evs)))
   \<and> (fst (get_from_cache cache now_read
              (get_cache_key ''full_nodes_tree'' [(''space_id'', PStr space_id)]) 3600) = None
      \<and> fetch_children_recursively fuel config aget nodes = Some (Inl e, evs) \<longrightarrow>
        get_datasheets fuel config cache now_read now_write space_id (Inr nodes) aget
          = Some (Inl (HTTPException 500 (HandlerFailed ''get_datasheets'' e)),
                  snd (get_from_cache cache now_read
                        (get_cache_key ''full_nodes_tree'' [(''space_id'', PStr space_id)]) 3600)))
   \<and> (get_datasheets fuel config cache now_read now_write space_id (Inr nodes) aget
        = Some (Inr resp, cache') \<longrightarrow>
        fst (get_from_cache cache now_read
              (get_cache_key ''full_nodes_tree'' [(''space_id'', PStr space_id)]) 3600)
          = Some (payload resp)
      \<or> (\<exists>evs'. fetch_children_recursively fuel config aget nodes
                   = Some (Inr (payload resp), evs')))"
proof (intro conjI impI)
  assume "fetch_children_recursively fuel config aget nodes = Some (r, evs) \<and> Aget i \<in> set evs
      \<and> aget i = Inl msg"
  then show "r = Inl (UpstreamError msg)"
    by (blast intro: fetch_failure_propagates_any)
next
  assume "fetch_fails aget nodes msg"
  then show "\<exists>fuel0. \<forall>fuel\<ge>fuel0. \<exists>evs.
            fetch_children_recursively fuel config aget nodes
              = Some (Inl (if config_get_rate_limit_qps config < float_overflow_bound
                           then UpstreamError msg else OverflowError), evs)"
    by (rule fetch_fails_enough_fuel_any)
next
  assume "fst (get_from_cache cache now_read
              (get_cache_key ''full_nodes_tree'' [(''space_id'', PStr space_id)]) 3600) = None
      \<and> fetch_children_recursively fuel config aget nodes = Some (Inl e, evs)"
  then show "get_datasheets fuel config cache now_read now_write space_id (Inr nodes) aget
          = Some (Inl (HTTPException 500 (HandlerFailed ''get_datasheets'' e)),
                  snd (get_from_cache cache now_read
                        (get_cache_key ''full_nodes_tree'' [(''space_id'', PStr space_id)]) 3600))"
    by (simp add: get_datasheets_def Let_def case_prod_unfold)
next
  assume "get_datasheets fuel config cache now_read now_write space_id (Inr nodes) aget
        = Some (Inr resp, cache')"
  then show "fst (get_from_cache cache now_read
              (get_cache_key ''full_nodes_tree'' [(''space_id'', PStr space_id)]) 3600)
          = Some (payload resp)
      \<or> (\<exists>evs'. fetch_children_recursively fuel config aget nodes
                   = Some (Inr (payload resp), evs'))"
    by (auto simp: get_datasheets_def Let_def case_prod_unfold
          split: option.splits sum.splits)
qed

theorem fetch_failure_aborts_tree_request_witness:
  "fetch_children_recursively 1 None
       (\<lambda>i. if i = ''f1''
             then Inr \<lparr>children = Some [\<lparr>node_id = ''f2'', node_name = ''sub'',
                                          node_type = ''Folder'', node_icon = ''i''\<rparr>]\<rparr>
             else Inl ''gone'')
       [\<lparr>node_id = ''f1'', node_name = ''top'', node_type = ''Folder'', node_icon = ''i''\<rparr>,
        \<lparr>node_id = ''d0'', node_name = ''sheet'', node_type = ''Datasheet'', node_icon = ''j''\<rparr>]
     = Some (Inl (UpstreamError ''gone''), [Sleep (1/2), Aget ''f1'', Sleep (1/2), Aget ''f2''])
   \<and> fetch_fails
       (\<lambda>i. if i = ''f1''
             then Inr \<lparr>children = Some [\<lparr>node_id = ''f2'', node_name = ''sub'',
                                          node_type = ''Folder'', node_icon = ''i''\<rparr>]\<rparr>
             else Inl ''gone'')
       [\<lparr>node_id = ''f1'', node_name = ''top'', node_type = ''Folder'', node_icon = ''i''\<rparr>,
        \<lparr>node_id = ''d0'', node_name = ''sheet'', node_type = ''Datasheet'', node_icon = ''j''\<rparr>]
       ''gone''
   \<and> get_datasheets 1 None Map.empty 0 0 ''spc''
       (Inr [\<lparr>node_id = ''f1'', node_name = ''top'', node_type = ''Folder'', node_icon = ''i''\<rparr>,
        \<lparr>node_id = ''d0'', node_name = ''sheet'', node_type = ''Datasheet'', node_icon = ''j''\<rparr>])
       (\<lambda>i. if i = ''f1''
             then Inr \<lparr>children = Some [\<lparr>node_id = ''f2'', node_name = ''sub'',
                                          node_type = ''Folder'', node_icon = ''i''\<rparr>]\<rparr>
             else Inl ''gone'')
     = Some (Inl (HTTPException 500 (HandlerFailed ''get_datasheets'' (UpstreamError ''gone''))),
             Map.empty)
   \<and> (\<exists>fuel0. \<forall>fuel\<ge>fuel0. \<exists>evs.
        fetch_children_recursively fuel None
         (\<lambda>i. if i = ''f1''
             then Inr \<lparr>children = Some [\<lparr>node_id = ''f2'', node_name = ''sub'',
                                          node_type = ''Folder'', node_icon = ''i''\<rparr>]\<rparr>
             else Inl ''gone'')
         [\<lparr>node_id = ''f1'', node_name = ''top'', node_type = ''Folder'', node_icon = ''i''\<rparr>,
          \<lparr>node_id = ''d0'', node_name = ''sheet'', node_type = ''Datasheet'', node_icon = ''j''\<rparr>]
        = Some (Inl (UpstreamError ''gone''), evs))"
proof -
  let ?f2 = "\<lparr>node_id = ''f2'', node_name = ''sub'', node_type = ''Folder'', node_icon = ''i''\<rparr>"
  let ?aget = "\<lambda>i. if i = ''f1'' then Inr \<lparr>children = Some [?f2]\<rparr> else Inl ''gone''"
  let ?nodes = "[\<lparr>node_id = ''f1'', node_name = ''top'', node_type = ''Folder'', node_icon = ''i''\<rparr>,
        \<lparr>node_id = ''d0'', node_name = ''sheet'', node_type = ''Datasheet'', node_icon = ''j''\<rparr>]"
  let ?evs = "[Sleep (1/2), Aget ''f1'', Sleep (1/2), Aget ''f2'']"
  let ?key = "get_cache_key ''full_nodes_tree'' [(''space_id'', PStr ''spc'')]"
  have r: "fetch_children_recursively 1 None ?aget ?nodes = Some (Inl (UpstreamError ''gone''), ?evs)"
    by code_simp
  have "fetch_fails ?aget [?f2] ''gone''"
    by (rule fails_here) simp_all
  then have f: "fetch_fails ?aget ?nodes ''gone''"
    by (rule fails_below [where cs = "[?f2]" and det = "\<lparr>children = Some [?f2]\<rparr>", rotated 3])
       simp_all
  have m: "fst (get_from_cache (Map.empty :: tree_node list cache) 0 ?key 3600) = None"
      "snd (get_from_cache (Map.empty :: tree_node list cache) 0 ?key 3600) = Map.empty"
    by (simp_all add: get_from_cache_def)
  note t = fetch_failure_aborts_tree_request
         [of 1 None ?aget ?nodes "Inl (UpstreamError ''gone'')" ?evs "''f2''" "''gone''"
             Map.empty 0 "''spc''" "UpstreamError ''gone''" 0]
  have q: "config_get_rate_limit_qps None < float_overflow_bound"
    by (simp add: config_get_rate_limit_qps_def float_overflow_bound_def)
  from t [THEN conjunct2, THEN conjunct1, rule_format, OF f]
  have e: "\<exists>fuel0. \<forall>fuel\<ge>fuel0. \<exists>evs.
        fetch_children_recursively fuel None ?aget ?nodes
          = Some (Inl (UpstreamError ''gone''), evs)"
    by (simp only: q if_True)
  from t [THEN conjunct2, THEN conjunct2, THEN conjunct1, rule_format, OF conjI [OF m(1) r]]
  have h: "get_datasheets 1 None Map.empty 0 0 ''spc'' (Inr ?nodes) ?aget
     = Some (Inl (HTTPException 500 (HandlerFailed ''get_datasheets'' (UpstreamError ''gone''))),
             Map.empty)"
    by (simp only: m(2))
  from r f h e show ?thesis by (intro conjI)
qed

lemma fetch_outcome_config:
  assumes ok: "config_get_rate_limit_qps config < float_overflow_bound"
    and ok': "config_get_rate_limit_qps config' < float_overflow_bound"
  shows "map_option fst (fetch_children_recursively fuel config aget nodes)
     = map_option fst (fetch_children_recursively fuel config' aget nodes)"
proof (cases "fetch_children_recursively fuel config aget nodes")
  case None
  show ?thesis
  proof (cases "fetch_children_recursively fuel config' aget nodes")
    case n: None
    with None show ?thesis by simp
  next
    case (Some x)
    obtain r evs where "x = (r, evs)" by (cases x)
    with Some fetch_config_independent [OF ok' ok, of fuel aget nodes r evs] None
    show ?thesis by simp
  qed
next
  case (Some x)
  obtain r evs where "x = (r, evs)" by (cases x)
  with Some fetch_config_independent [OF ok ok', of fuel aget nodes r evs]
  show ?thesis by auto
qed

lemma throttle_nonpositive: "config_get_rate_limit_qps config \<le> 0 \<Longrightarrow> throttle config = []"
  by (simp add: throttle_def)

lemma nonpositive_converts:
  "config_get_rate_limit_qps config \<le> 0 \<Longrightarrow> config_get_rate_limit_qps config < float_overflow_bound"
  using float_overflow_bound_pos by simp

text \<open>
  Claim C10, as stated, fails in its last part: the fetch is not well-defined for every
  integer quota. The test \<open>qps_limit > 0\<close> keeps zero and negative quotas away from the
  division, but a positive quota that is too large to convert to a float (here \<open>10^309\<close>,
  which \<^verbatim>\<open>POST /config\<close> accepts) makes \<^verbatim>\<open>1.0 / qps_limit\<close> raise
  \<^verbatim>\<open>OverflowError\<close> at the first folder, before its detail fetch, where the quota 2
  gives the list.
\<close>

theorem fetch_huge_quota_overflows:
  "fetch_children_recursively 1
       (Some \<lparr>user_token = ''t'', api_base = ''b'', rate_limit_qps = 10 ^ 309\<rparr>)
       (\<lambda>i. Inr \<lparr>children = Some []\<rparr>)
       [\<lparr>node_id = ''f1'', node_name = ''top'', node_type = ''Folder'', node_icon = ''i''\<rparr>]
     = Some (Inl OverflowError, [])
   \<and> fetch_children_recursively 1
       (Some \<lparr>user_token = ''t'', api_base = ''b'', rate_limit_qps = 2\<rparr>)
       (\<lambda>i. Inr \<lparr>children = Some []\<rparr>)
       [\<lparr>node_id = ''f1'', node_name = ''top'', node_type = ''Folder'', node_icon = ''i''\<rparr>]
     = Some (Inr [TreeNode ''f1'' ''top'' ''Folder'' ''i'' []], [Sleep (1/2), Aget ''f1''])"
proof -
  let ?f1 = "\<lparr>node_id = ''f1'', node_name = ''top'', node_type = ''Folder'', node_icon = ''i''\<rparr>"
  have "fetch_children_recursively 1
       (Some \<lparr>user_token = ''t'', api_base = ''b'', rate_limit_qps = 10 ^ 309\<rparr>)
       (\<lambda>i. Inr \<lparr>children = Some []\<rparr>) [?f1] = Some (Inl OverflowError, [])"
    by code_simp
  moreover have "fetch_children_recursively 1
       (Some \<lparr>user_token = ''t'', api_base = ''b'', rate_limit_qps = 2\<rparr>)
       (\<lambda>i. Inr \<lparr>children = Some []\<rparr>) [?f1]
     = Some (Inr [TreeNode ''f1'' ''top'' ''Folder'' ''i'' []], [Sleep (1/2), Aget ''f1''])"
    by code_simp
  ultimately show ?thesis by (intro conjI)
qed

text \<open>
  Claim C10, amended. With a quota that is zero or negative, the traversal performs no
  delay and no division: its events are detail fetches only, a folder is processed by its
  one detail fetch, and no arithmetic error arises. For every integer quota the result is
  never a division by zero (the division is behind the test \<open>qps_limit > 0\<close>). The
  outcome of the traversal, a list, an exception or no result, is the same for all quotas
  below \<open>2^1024 - 2^970\<close>, which Python can convert to a float; with a quota from there on,
  the traversal raises \<open>OverflowError\<close> at the first folder.
\<close>

theorem fetch_nonpositive_quota:
  "(config_get_rate_limit_qps config \<le> 0
      \<and> fetch_children_recursively fuel config aget nodes = Some (r, evs) \<longrightarrow>
        (\<forall>d. Sleep d \<notin> set evs) \<and> r \<noteq> Inl OverflowError)
   \<and> (fetch_children_recursively fuel config aget nodes = Some (r, evs) \<longrightarrow>
        r \<noteq> Inl ZeroDivisionError)
   \<and> (config_get_rate_limit_qps config < float_overflow_bound
      \<and> config_get_rate_limit_qps config' < float_overflow_bound \<longrightarrow>
        map_option fst (fetch_children_recursively fuel config aget nodes)
          = map_option fst (fetch_children_recursively fuel config' aget nodes))
   \<and> (config_get_rate_limit_qps config \<le> 0 \<and> node_type n = ''Folder''
      \<and> aget (node_id n) = Inl msg \<longrightarrow>
        fetch_children_recursively fuel config aget [n]
          = Some (Inl (UpstreamError msg), [Aget (node_id n)]))
   \<and> (config_get_rate_limit_qps config \<le> 0 \<and> node_type n = ''Folder''
      \<and> aget (node_id n) = Inr det \<and> children det = Some [] \<longrightarrow>
        fetch_children_recursively fuel config aget [n]
          = Some (Inr [node_dict n []], [Aget (node_id n)]))
   \<and> (float_overflow_bound \<le> config_get_rate_limit_qps config \<and> node_type n = ''Folder'' \<longrightarrow>
        fetch_children_recursively fuel config aget (n # ns) = Some (Inl OverflowError, []))"
proof (intro conjI impI allI)
  fix d
  assume a: "config_get_rate_limit_qps config \<le> 0
      \<and> fetch_children_recursively fuel config aget nodes = Some (r, evs)"
  then have ok: "config_get_rate_limit_qps config < float_overflow_bound"
    by (simp add: nonpositive_converts)
  from a have "set evs \<subseteq> set (throttle config) \<union> range Aget"
    by (blast dest: fetch_events [OF ok])
  with a show "Sleep d \<notin> set evs"
    by (auto simp: throttle_nonpositive)
next
  assume a: "config_get_rate_limit_qps config \<le> 0
      \<and> fetch_children_recursively fuel config aget nodes = Some (r, evs)"
  then have ok: "config_get_rate_limit_qps config < float_overflow_bound"
    by (simp add: nonpositive_converts)
  from a show "r \<noteq> Inl OverflowError"
    by (blast dest: fetch_no_overflow [OF ok])
next
  assume "fetch_children_recursively fuel config aget nodes = Some (r, evs)"
  then show "r \<noteq> Inl ZeroDivisionError" by (rule fetch_no_zero_division_any)
next
  assume "config_get_rate_limit_qps config < float_overflow_bound
      \<and> config_get_rate_limit_qps config' < float_overflow_bound"
  then show "map_option fst (fetch_children_recursively fuel config aget nodes)
       = map_option fst (fetch_children_recursively fuel config' aget nodes)"
    by (blast intro: fetch_outcome_config)
next
  assume a: "config_get_rate_limit_qps config \<le> 0 \<and> node_type n = ''Folder''
      \<and> aget (node_id n) = Inl msg"
  then have ok: "config_get_rate_limit_qps config < float_overflow_bound"
    by (simp add: nonpositive_converts)
  from a show "fetch_children_recursively fuel config aget [n]
          = Some (Inl (UpstreamError msg), [Aget (node_id n)])"
    by (simp add: fetch_Cons_fail [OF ok] throttle_nonpositive)
next
  assume a: "config_get_rate_limit_qps config \<le> 0 \<and> node_type n = ''Folder''
      \<and> aget (node_id n) = Inr det \<and> children det = Some []"
  then have ok: "config_get_rate_limit_qps config < float_overflow_bound"
    by (simp add: nonpositive_converts)
  from a show "fetch_children_recursively fuel config aget [n]
          = Some (Inr [node_dict n []], [Aget (node_id n)])"
    by (simp add: fetch_empty [OF ok] throttle_nonpositive)
next
  assume "float_overflow_bound \<le> config_get_rate_limit_qps config \<and> node_type n = ''Folder''"
  then show "fetch_children_recursively fuel config aget (n # ns) = Some (Inl OverflowError, [])"
    by (simp add: fetch_Cons_overflow)
qed

theorem fetch_nonpositive_quota_witness:
  "config_get_rate_limit_qps (Some \<lparr>user_token = ''t'', api_base = ''b'', rate_limit_qps = 0\<rparr>) \<le> 0
   \<and> fetch_children_recursively 1
       (Some \<lparr>user_token = ''t'', api_base = ''b'', rate_limit_qps = 0\<rparr>)
       (\<lambda>i. if i = ''f1''
             then Inr \<lparr>children = Some [\<lparr>node_id = ''f2'', node_name = ''sub'',
                                          node_type = ''Folder'', node_icon = ''i''\<rparr>]\<rparr>
             else if i = ''f2'' then Inr \<lparr>children = Some []\<rparr> else Inl ''gone'')
       [\<lparr>node_id = ''f1'', node_name = ''top'', node_type = ''Folder'', node_icon = ''i''\<rparr>]
     = Some (Inr [TreeNode ''f1'' ''top'' ''Folder'' ''i''
                    [TreeNode ''f2'' ''sub'' ''Folder'' ''i'' []]],
             [Aget ''f1'', Aget ''f2''])
   \<and> (\<forall>d. Sleep d \<notin> set [Aget ''f1'', Aget ''f2''])
   \<and> fetch_children_recursively 1
       (Some \<lparr>user_token = ''t'', api_base = ''b'', rate_limit_qps = - 3\<rparr>)
       (\<lambda>i. Inl ''gone'')
       [\<lparr>node_id = ''f1'', node_name = ''top'', node_type = ''Folder'', node_icon = ''i''\<rparr>]
     = Some (Inl (UpstreamError ''gone''), [Aget ''f1''])
   \<and> float_overflow_bound
       \<le> config_get_rate_limit_qps
           (Some \<lparr>user_token = ''t'', api_base = ''b'', rate_limit_qps = 10 ^ 309\<rparr>)
   \<and> fetch_children_recursively 1
       (Some \<lparr>user_token = ''t'', api_base = ''b'', rate_limit_qps = 10 ^ 309\<rparr>)
       (\<lambda>i. Inl ''gone'')
       [\<lparr>node_id = ''f1'', node_name = ''top'', node_type = ''Folder'', node_icon = ''i''\<rparr>]
     = Some (Inl OverflowError, [])"
proof -
  let ?c0 = "Some \<lparr>user_token = ''t'', api_base = ''b'', rate_limit_qps = 0\<rparr>"
  let ?c3 = "Some \<lparr>user_token = ''t'', api_base = ''b'', rate_limit_qps = - 3\<rparr>"
  let ?ch = "Some \<lparr>user_token = ''t'', api_base = ''b'', rate_limit_qps = 10 ^ 309\<rparr>"
  let ?f1 = "\<lparr>node_id = ''f1'', node_name = ''top'', node_type = ''Folder'', node_icon = ''i''\<rparr>"
  let ?f2 = "\<lparr>node_id = ''f2'', node_name = ''sub'', node_type = ''Folder'', node_icon = ''i''\<rparr>"
  let ?aget = "\<lambda>i. if i = ''f1'' then Inr \<lparr>children = Some [?f2]\<rparr>
             else if i = ''f2'' then Inr \<lparr>children = Some []\<rparr> else Inl ''gone''"
  let ?out = "[TreeNode ''f1'' ''top'' ''Folder'' ''i'' [TreeNode ''f2'' ''sub'' ''Folder'' ''i'' []]]"
  let ?evs = "[Aget ''f1'', Aget ''f2'']"
  have q0: "config_get_rate_limit_qps ?c0 \<le> 0" and q3: "config_get_rate_limit_qps ?c3 \<le> 0"
    by (simp_all add: config_get_rate_limit_qps_def)
  have qh: "float_overflow_bound \<le> config_get_rate_limit_qps ?ch"
    by (simp add: config_get_rate_limit_qps_def float_overflow_bound_def)
  have r: "fetch_children_recursively 1 ?c0 ?aget [?f1] = Some (Inr ?out, ?evs)"
    by code_simp
  from fetch_nonpositive_quota [of ?c0 1 ?aget "[?f1]" "Inr ?out" ?evs, THEN conjunct1,
         rule_format, OF conjI [OF q0 r]]
  have s: "\<forall>d. Sleep d \<notin> set ?evs" by blast
  have h: "config_get_rate_limit_qps ?c3 \<le> 0 \<and> node_type ?f1 = ''Folder''
      \<and> (\<lambda>i. Inl ''gone'' :: string + folder_details) (node_id ?f1) = Inl ''gone''"
    using q3 by simp
  from fetch_nonpositive_quota [of ?c3 1 "\<lambda>i. Inl ''gone''" "[?f1]" _ _ _ ?f1 "''gone''",
         THEN conjunct2, THEN conjunct2, THEN conjunct2, THEN conjunct1, rule_format, OF h]
  have f: "fetch_children_recursively 1 ?c3 (\<lambda>i. Inl ''gone'') [?f1]
     = Some (Inl (UpstreamError ''gone''), [Aget ''f1''])" by simp
  have g: "float_overflow_bound \<le> config_get_rate_limit_qps ?ch \<and> node_type ?f1 = ''Folder''"
    using qh by simp
  from fetch_nonpositive_quota [of ?ch 1 "\<lambda>i. Inl ''gone''" "[?f1]" _ _ _ ?f1 _ _ "[]",
         THEN conjunct2, THEN conjunct2, THEN conjunct2, THEN conjunct2, THEN conjunct2,
         rule_format, OF g]
  have o: "fetch_children_recursively 1 ?ch (\<lambda>i. Inl ''gone'') [?f1]
     = Some (Inl OverflowError, [])" .
  from q0 r s f qh o show ?thesis by (intro conjI)
qed

subsection \<open>Batch handler\<close>

lemma batch_loop_acc:
  "batch_loop up u acc ops
     = (acc @ fst (batch_loop up u [] ops), snd (batch_loop up u [] ops))"
proof (induction ops arbitrary: u acc)
  case Nil
  show ?case by simp
next
  case (Cons a ops)
  obtain res u' where r: "run_operation up u a = (res, u')" by (cases "run_operation up u a")
  show ?case
    using Cons.IH [of u' "acc @ [res]"] Cons.IH [of u' "[res]"]
    by (simp add: r)
qed

lemma batch_loop_Cons:
  "batch_loop up u [] (a # ops)
     = (fst (run_operation up u a) # fst (batch_loop up (snd (run_operation up u a)) [] ops),
        snd (batch_loop up (snd (run_operation up u a)) [] ops))"
  using batch_loop_acc [of up "snd (run_operation up u a)" "[fst (run_operation up u a)]" ops]
  by (simp add: case_prod_unfold)

lemma batch_loop_length: "length (fst (batch_loop up u [] ops)) = length ops"
  by (induction ops arbitrary: u) (simp_all add: batch_loop_Cons del: batch_loop.simps(2))

lemma batch_loop_nth:
  "i < length ops \<Longrightarrow>
   fst (batch_loop up u [] ops) ! i
     = fst (run_operation up (snd (batch_loop up u [] (take i ops))) (ops ! i))"
proof (induction ops arbitrary: u i)
  case Nil
  then show ?case by simp
next
  case (Cons a ops)
  show ?case
  proof (cases i)
    case 0
    then show ?thesis by (simp add: batch_loop_Cons del: batch_loop.simps(2))
  next
    case (Suc j)
    with Cons.prems have "j < length ops" by simp
    from Cons.IH [OF this, of "snd (run_operation up u a)"] Suc show ?thesis
      by (simp add: batch_loop_Cons del: batch_loop.simps(2))
  qed
qed

text \<open>
  Claim C7. For every list of operations the batch handler answers with a result list of
  the same length; item \<open>i\<close> is what operation \<open>i\<close> alone produces (its success with the
  data, or its failure with the error), run on the upstream state that the operations
  before it left, whatever their outcomes: the item of the first operation is followed by
  the items of the remaining ones. After the loop the cache is empty.
\<close>

theorem batch_operations_independent:
  "(\<exists>results u'.
       batch_operations cache upstream u operations
         = ((Inr (Response True results None), Map.empty), u')
     \<and> length results = length operations
     \<and> (\<forall>i<length operations.
           results ! i
             = fst (run_operation upstream
                     (snd (batch_loop upstream u [] (take i operations))) (operations ! i))))
   \<and> fst (batch_loop upstream u [] (operation # operations))
       = fst (run_operation upstream u operation)
         # fst (batch_loop upstream (snd (run_operation upstream u operation)) [] operations)
   \<and> snd (fst (batch_operations cache upstream u operations)) = Map.empty"
proof -
  obtain results u' where b: "batch_loop upstream u [] operations = (results, u')"
    by (cases "batch_loop upstream u [] operations")
  then have r: "results = fst (batch_loop upstream u [] operations)" by simp
  have 1: "batch_operations cache upstream u operations
         = ((Inr (Response True results None), Map.empty), u')"
    by (simp add: batch_operations_def b cache_clear_def)
  have 2: "length results = length operations"
    by (simp add: r batch_loop_length)
  have 3: "\<forall>i<length operations.
           results ! i
             = fst (run_operation upstream
                     (snd (batch_loop upstream u [] (take i operations))) (operations ! i))"
    by (simp add: r batch_loop_nth)
  have 4: "fst (batch_loop upstream u [] (operation # operations))
       = fst (run_operation upstream u operation)
         # fst (batch_loop upstream (snd (run_operation upstream u operation)) [] operations)"
    by (simp add: batch_loop_Cons del: batch_loop.simps(2))
  have 5: "snd (fst (batch_operations cache upstream u operations)) = Map.empty"
    by (simp add: 1)
  from 1 2 3 4 5 show ?thesis by blast
qed

theorem batch_operations_independent_witness:
  "batch_operations [''records:datasheet_id=dst2'' \<mapsto> \<lparr>data = ''old'', timestamp = 0\<rparr>]
      (\<lambda>u call. case call of ACreate d p \<Rightarrow> (Inl ''boom'', Suc u)
                             | AUpdate d p \<Rightarrow> (Inr (d @ p), Suc u)
                             | ADelete d p \<Rightarrow> (Inr d, Suc u))
      (0::nat)
      [\<lparr>op_type = Some ''create_record'', op_datasheet_id = Some ''dst1'',
         op_records = Some ''r1'', op_record_ids = None\<rparr>,
       \<lparr>op_type = Some ''update_record'', op_datasheet_id = Some ''dst2'',
         op_records = Some ''r2'', op_record_ids = None\<rparr>]
    = ((Inr (Response True
               [BatchFailure (Raised (UpstreamError ''boom'')), BatchSuccess ''dst2r2''] None),
        Map.empty), 2)
   \<and> map item_success
        [BatchFailure (Raised (UpstreamError ''boom'')), BatchSuccess ''dst2r2'']
       = [False, True]"
proof -
  let ?up = "\<lambda>u call. case call of ACreate d p \<Rightarrow> (Inl ''boom'', Suc u)
                             | AUpdate d p \<Rightarrow> (Inr (d @ p), Suc u)
                             | ADelete d p \<Rightarrow> (Inr d, Suc u)"
  let ?ops = "[\<lparr>op_type = Some ''create_record'', op_datasheet_id = Some ''dst1'',
         op_records = Some ''r1'', op_record_ids = None\<rparr>,
       \<lparr>op_type = Some ''update_record'', op_datasheet_id = Some ''dst2'',
         op_records = Some ''r2'', op_record_ids = None\<rparr>]"
  let ?c = "[''records:datasheet_id=dst2'' \<mapsto> \<lparr>data = ''old'', timestamp = 0\<rparr>]"
  from batch_operations_independent [of ?c ?up "0::nat" ?ops]
  obtain results u' where
    b: "batch_operations ?c ?up (0::nat) ?ops = ((Inr (Response True results None), Map.empty), u')"
    and l: "length results = length ?ops"
    and n: "\<forall>i<length ?ops. results ! i
             = fst (run_operation ?up (snd (batch_loop ?up 0 [] (take i ?ops))) (?ops ! i))"
    by blast
  have e: "batch_loop ?up (0::nat) [] ?ops
      = ([BatchFailure (Raised (UpstreamError ''boom'')), BatchSuccess ''dst2r2''], 2)"
    by (simp add: run_operation_def upstream_result_def)
  have "batch_operations ?c ?up (0::nat) ?ops
      = ((Inr (Response True
               [BatchFailure (Raised (UpstreamError ''boom'')), BatchSuccess ''dst2r2''] None),
        Map.empty), 2)"
    by (simp only: batch_operations_def e prod.case cache_clear_def)
  with b have "results = [BatchFailure (Raised (UpstreamError ''boom'')), BatchSuccess ''dst2r2'']"
      "u' = 2"
    by simp_all
  with b show ?thesis by simp
qed

end
